theory Spec2Isabelle
  imports Main
begin

section \<open>The user data profiles main service\<close>

text \<open>
  A shallow embedding of \<^verbatim>\<open>UserDataProfilesMainService\<close>
  (\<^verbatim>\<open>vs/platform/userDataProfile/electron-main/userDataProfile.ts\<close>).
  The service keeps two slots of the state store, an in-memory cache of the
  object derived from them, and talks to a file service and to the listeners of
  two events. Everything it touches is a field of the record \<open>service\<close>; what
  it is given from outside (the default profile, the profiles home, the URI
  comparison, the file service, the listeners) is a field of the record \<open>env\<close>.
\<close>

subsection \<open>Data\<close>

text \<open>A URI, as far as the service looks at it: the scheme and the rest.\<close>

record URI =
  scheme :: string
  path :: string

text \<open>The default-flag set of a profile is only copied around by the service.\<close>

type_synonym UseDefaultProfileFlags = "string list"

text \<open>
  \<^verbatim>\<open>StoredUserDataProfile\<close> is what the state store holds of a profile;
  \<^verbatim>\<open>IUserDataProfile\<close> has the same three fields and the default marker.
\<close>

record StoredUserDataProfile =
  name :: string
  location :: URI
  useDefaultFlags :: "UseDefaultProfileFlags option"

record IUserDataProfile = StoredUserDataProfile +
  isDefault :: bool

record StoredWorkspaceInfo =
  workspace :: URI
  profile :: URI

text \<open>
  \<^verbatim>\<open>ResourceMap<IUserDataProfile>\<close> is a map keyed by the URI (its default key
  is the URI's string form, so two keys are the same key when the URIs are equal).
\<close>

record UserDataProfilesObject =
  profiles :: "IUserDataProfile list"
  workspaces :: "URI \<rightharpoonup> IUserDataProfile"

datatype WorkspaceIdentifier =
  SingleFolderWorkspaceIdentifier string URI
| WorkspaceIdentifier string URI

text \<open>A JavaScript \<^verbatim>\<open>Error\<close> with its message.\<close>

datatype error = Error string

text \<open>
  What an asynchronous operation comes to: it returns a value, it throws, or it
  never resumes (a promise it awaits never settles).
\<close>

datatype 'a outcome = Returns 'a | Throws error | NeverSettles

text \<open>
  A promise handed to \<^verbatim>\<open>join\<close>: its identity and what becomes of it.
\<close>

datatype settlement = Fulfilled | Rejected error | Unsettled

datatype promise = Promise (pid: nat) (fate: settlement)

text \<open>
  A listener of the will-create or the will-remove event is given the event with its
  \<^verbatim>\<open>join\<close>, a closure over the array \<^verbatim>\<open>joiners\<close> that pushes on it whenever it is
  called. A listener may call \<^verbatim>\<open>join\<close> while the event is delivered to it, and it may
  keep the event and call \<^verbatim>\<open>join\<close> later, after \<^verbatim>\<open>fire\<close> has returned.
\<close>

datatype joinCall = OnDelivery promise | Later promise

type_synonym listener = "IUserDataProfile \<Rightarrow> joinCall list"

text \<open>
  The trace of what the service does to the outside, in the order it does it:
  the writes to the state store, the calls that change the file system, the events
  it fires, the promises joined to an event and their settling.
\<close>

datatype effect =
  SetItem string
| CreateFolder URI
| Del URI bool
| WillCreateProfile IUserDataProfile
| WillRemoveProfile IUserDataProfile
| Join nat
| Settled nat
| DidChangeProfiles "IUserDataProfile list"

record 'f env =
  defaultProfile :: IUserDataProfile
  profilesHome :: URI
  isEqual :: "URI \<Rightarrow> URI \<Rightarrow> bool"
  reviveProfile :: "IUserDataProfile \<Rightarrow> string \<Rightarrow> IUserDataProfile"
  fs_exists :: "'f \<Rightarrow> URI \<Rightarrow> bool"
  fs_createFolder :: "'f \<Rightarrow> URI \<Rightarrow> error + 'f"
  fs_del :: "'f \<Rightarrow> URI \<Rightarrow> bool \<Rightarrow> error + 'f"
  onWillCreateProfile :: "listener list"
  onWillRemoveProfile :: "listener list"

record 'f service =
  item_userDataProfiles :: "StoredUserDataProfile list"
  item_workspaceAndProfileInfo :: "StoredWorkspaceInfo list"
  cached_profilesObject :: "UserDataProfilesObject option"
  files :: 'f
  trace :: "effect list"

definition PROFILES_KEY :: string where
  "PROFILES_KEY = ''userDataProfiles''"

definition WORKSPACE_PROFILE_INFO_KEY :: string where
  "WORKSPACE_PROFILE_INFO_KEY = ''workspaceAndProfileInfo''"

subsection \<open>Helpers that live outside the file\<close>

text \<open>
  Modelled from the spec: \<^verbatim>\<open>toUserDataProfile\<close> of
  \<^verbatim>\<open>vs/platform/userDataProfile/common/userDataProfile\<close> is not among the sources.
  The spec describes the profile entity as a flat record of name, file system
  location and default-flag set; a profile made from a stored one is not the
  default profile.
\<close>

definition toUserDataProfile ::
  "string \<Rightarrow> URI \<Rightarrow> UseDefaultProfileFlags option \<Rightarrow> IUserDataProfile" where
  "toUserDataProfile n l fl =
     \<lparr>name = n, location = l, useDefaultFlags = fl, isDefault = False\<rparr>"

text \<open>
  Modelled from the spec: \<^verbatim>\<open>Promises.settled\<close> of \<^verbatim>\<open>vs/base/common/async\<close>
  is not among the sources. The spec calls it a simple settle-all join with which
  listeners can veto or delay the operation, with no order among themselves: it is
  handed the promises that are on the array when it is called; the caller resumes
  once every one of them has settled, and throws when one of them was rejected; it
  never resumes while one of them is unsettled. The trace records those of them that
  settle.
\<close>

definition settledEffects :: "promise list \<Rightarrow> effect list" where
  "settledEffects ps = map (\<lambda>p. Settled (pid p)) (filter (\<lambda>p. fate p \<noteq> Unsettled) ps)"

fun firstRejection :: "promise list \<Rightarrow> error option" where
  "firstRejection [] = None"
| "firstRejection (p # ps) =
     (case fate p of Rejected e \<Rightarrow> Some e | _ \<Rightarrow> firstRejection ps)"

definition Promises_settled :: "promise list \<Rightarrow> unit outcome" where
  "Promises_settled ps =
     (if list_ex (\<lambda>p. fate p = Unsettled) ps then NeverSettles
      else case firstRejection ps of Some e \<Rightarrow> Throws e | None \<Rightarrow> Returns ())"

text \<open>
  Modelled from the spec: the \<^verbatim>\<open>Emitter\<close> of \<^verbatim>\<open>vs/base/common/event\<close> is not among
  the sources. The spec has the service fire notifications that collaborators may
  join with pending work: firing an event hands it to every listener in turn and
  returns when the last one has handled it. \<open>joinCalls\<close> are the calls of \<^verbatim>\<open>join\<close> the
  listeners make for the event, \<open>fire\<close> is what they have pushed on \<^verbatim>\<open>joiners\<close> when
  \<^verbatim>\<open>fire\<close> returns, and \<open>joinedLater\<close> what they push afterwards.
\<close>

definition joinCalls :: "listener list \<Rightarrow> IUserDataProfile \<Rightarrow> joinCall list" where
  "joinCalls listeners p = concat (map (\<lambda>l. l p) listeners)"

definition fire :: "listener list \<Rightarrow> IUserDataProfile \<Rightarrow> promise list" where
  "fire listeners p =
     List.map_filter (\<lambda>c. case c of OnDelivery q \<Rightarrow> Some q | Later q \<Rightarrow> None)
       (joinCalls listeners p)"

definition joinedLater :: "listener list \<Rightarrow> IUserDataProfile \<Rightarrow> promise list" where
  "joinedLater listeners p =
     List.map_filter (\<lambda>c. case c of OnDelivery q \<Rightarrow> None | Later q \<Rightarrow> Some q)
       (joinCalls listeners p)"

subsection \<open>The stored state and the derived object\<close>

definition storedProfiles :: "'f service \<Rightarrow> StoredUserDataProfile list" where
  "storedProfiles s = item_userDataProfiles s"

definition storedWorskpaceInfos :: "'f service \<Rightarrow> StoredWorkspaceInfo list" where
  "storedWorskpaceInfos s = item_workspaceAndProfileInfo s"

definition computeProfilesObject :: "'f env \<Rightarrow> 'f service \<Rightarrow> UserDataProfilesObject" where
  "computeProfilesObject e s =
     (let ps = defaultProfile e #
                 map (\<lambda>sp. toUserDataProfile (name sp) (location sp) (useDefaultFlags sp))
                   (storedProfiles s);
          ws = foldl (\<lambda>m info.
                  case find (\<lambda>p. isEqual e (location p) (profile info)) ps of
                    Some p \<Rightarrow> m(workspace info \<mapsto> p)
                  | None \<Rightarrow> m)
                Map.empty (storedWorskpaceInfos s)
      in \<lparr>profiles = ps, workspaces = ws\<rparr>)"

definition profilesObject :: "'f env \<Rightarrow> 'f service \<Rightarrow> UserDataProfilesObject \<times> 'f service" where
  "profilesObject e s =
     (case cached_profilesObject s of
        Some po \<Rightarrow> (po, s)
      | None \<Rightarrow>
          (let po = computeProfilesObject e s
           in (po, s\<lparr>cached_profilesObject := Some po\<rparr>)))"

definition get_profiles :: "'f env \<Rightarrow> 'f service \<Rightarrow> IUserDataProfile list \<times> 'f service" where
  "get_profiles e s = (let (po, s1) = profilesObject e s in (profiles po, s1))"

definition set_storedProfiles ::
  "'f env \<Rightarrow> StoredUserDataProfile list \<Rightarrow> 'f service \<Rightarrow> 'f service" where
  "set_storedProfiles e v s =
     (let s1 = s\<lparr>item_userDataProfiles := v,
                  cached_profilesObject := None,
                  trace := trace s @ [SetItem PROFILES_KEY]\<rparr>;
          (ps, s2) = get_profiles e s1
      in s2\<lparr>trace := trace s2 @ [DidChangeProfiles ps]\<rparr>)"

definition set_storedWorskpaceInfos ::
  "StoredWorkspaceInfo list \<Rightarrow> 'f service \<Rightarrow> 'f service" where
  "set_storedWorskpaceInfos v s =
     s\<lparr>item_workspaceAndProfileInfo := v,
       cached_profilesObject := None,
       trace := trace s @ [SetItem WORKSPACE_PROFILE_INFO_KEY]\<rparr>"

subsection \<open>The operations\<close>

text \<open>
  In \<^verbatim>\<open>createProfile\<close> and \<^verbatim>\<open>removeProfile\<close> the array \<^verbatim>\<open>joiners\<close> is handed to
  \<^verbatim>\<open>Promises.settled\<close> as soon as \<^verbatim>\<open>fire\<close> has returned, and the operation awaits the
  result. The calls of \<^verbatim>\<open>join\<close> that listeners make later come while it awaits: they
  push on the array, and the trace records them, but the promises are not among those
  that were handed over.
\<close>

fun getWorkspace :: "WorkspaceIdentifier \<Rightarrow> URI" where
  "getWorkspace (SingleFolderWorkspaceIdentifier i u) = u"
| "getWorkspace (WorkspaceIdentifier i configPath) = configPath"

definition getAllProfiles :: "'f env \<Rightarrow> 'f service \<Rightarrow> IUserDataProfile list \<times> 'f service" where
  "getAllProfiles e s = get_profiles e s"

definition getProfile ::
  "'f env \<Rightarrow> 'f service \<Rightarrow> WorkspaceIdentifier \<Rightarrow> IUserDataProfile \<times> 'f service" where
  "getProfile e s workspaceIdentifier =
     (let (po, s1) = profilesObject e s
      in (case workspaces po (getWorkspace workspaceIdentifier) of
            Some p \<Rightarrow> p
          | None \<Rightarrow> defaultProfile e, s1))"

text \<open>
  \<^verbatim>\<open>setProfileForWorkspace\<close> returns what \<^verbatim>\<open>find\<close> returns, which is
  \<^verbatim>\<open>undefined\<close> (\<open>None\<close>) when no profile of the list has the location.
\<close>

definition setProfileForWorkspace ::
  "'f env \<Rightarrow> 'f service \<Rightarrow> IUserDataProfile \<Rightarrow> WorkspaceIdentifier
     \<Rightarrow> IUserDataProfile option \<times> 'f service" where
  "setProfileForWorkspace e s p0 workspaceIdentifier =
     (let p = reviveProfile e p0 (scheme (profilesHome e));
          w = getWorkspace workspaceIdentifier;
          kept = filter (\<lambda>info. \<not> isEqual e (workspace info) w) (storedWorskpaceInfos s);
          infos = (if \<not> isDefault p
                   then kept @ [\<lparr>workspace = w, profile = location p\<rparr>]
                   else kept);
          s1 = set_storedWorskpaceInfos infos s;
          (po, s2) = profilesObject e s1
      in (find (\<lambda>q. isEqual e (location q) (location p)) (profiles po), s2))"

definition createProfile ::
  "'f env \<Rightarrow> 'f service \<Rightarrow> IUserDataProfile \<Rightarrow> WorkspaceIdentifier option
     \<Rightarrow> IUserDataProfile option outcome \<times> 'f service" where
  "createProfile e s p0 workspaceIdentifier =
     (let p = reviveProfile e p0 (scheme (profilesHome e))
      in if list_ex (\<lambda>sp. name sp = name p) (storedProfiles s)
         then (Throws (Error (''Profile with name '' @ name p @ '' already exists'')), s)
         else
           (case (if \<not> fs_exists e (files s) (profilesHome e)
                  then (case fs_createFolder e (files s) (profilesHome e) of
                          Inl err \<Rightarrow> Inl (err, s\<lparr>trace := trace s @ [CreateFolder (profilesHome e)]\<rparr>)
                        | Inr f \<Rightarrow> Inr (s\<lparr>files := f,
                                          trace := trace s @ [CreateFolder (profilesHome e)]\<rparr>))
                  else Inr s) of
              Inl (err, s1) \<Rightarrow> (Throws err, s1)
            | Inr s1 \<Rightarrow>
                (let joiners = fire (onWillCreateProfile e) p;
                     later = joinedLater (onWillCreateProfile e) p;
                     s2 = s1\<lparr>trace := trace s1 @ [WillCreateProfile p]
                                  @ map (\<lambda>j. Join (pid j)) joiners
                                  @ map (\<lambda>j. Join (pid j)) later
                                  @ settledEffects joiners\<rparr>
                 in case Promises_settled joiners of
                      NeverSettles \<Rightarrow> (NeverSettles, s2)
                    | Throws err \<Rightarrow> (Throws err, s2)
                    | Returns _ \<Rightarrow>
                        (let storedProfile = \<lparr>name = name p, location = location p,
                                               useDefaultFlags = useDefaultFlags p\<rparr>;
                             s3 = set_storedProfiles e (storedProfiles s2 @ [storedProfile]) s2;
                             s4 = (case workspaceIdentifier of
                                     Some w \<Rightarrow> snd (setProfileForWorkspace e s3 p w)
                                   | None \<Rightarrow> s3);
                             (po, s5) = profilesObject e s4
                         in (Returns (find (\<lambda>q. isEqual e (location q) (location p)) (profiles po)),
                             s5)))))"

definition removeProfile ::
  "'f env \<Rightarrow> 'f service \<Rightarrow> IUserDataProfile \<Rightarrow> unit outcome \<times> 'f service" where
  "removeProfile e s p0 =
     (if isDefault p0 then (Throws (Error ''Cannot remove default profile''), s)
      else
        (let p = reviveProfile e p0 (scheme (profilesHome e))
         in if \<not> list_ex (\<lambda>sp. isEqual e (location sp) (location p)) (storedProfiles s)
            then (Throws (Error (''Profile with name '' @ name p @ '' does not exist'')), s)
            else
              (let joiners = fire (onWillRemoveProfile e) p;
                   later = joinedLater (onWillRemoveProfile e) p;
                   s1 = s\<lparr>trace := trace s @ [WillRemoveProfile p]
                               @ map (\<lambda>j. Join (pid j)) joiners
                               @ map (\<lambda>j. Join (pid j)) later
                               @ settledEffects joiners\<rparr>
               in case Promises_settled joiners of
                    NeverSettles \<Rightarrow> (NeverSettles, s1)
                  | Throws err \<Rightarrow> (Throws err, s1)
                  | Returns _ \<Rightarrow>
                      (let (ps, s2) = get_profiles e s1;
                           target = (if length ps = 2 then profilesHome e else location p);
                           s3 = s2\<lparr>trace := trace s2 @ [Del target True]\<rparr>
                       in case fs_del e (files s3) target True of
                            Inl err \<Rightarrow> (Throws err, s3)
                          | Inr f \<Rightarrow>
                              (let s4 = s3\<lparr>files := f\<rparr>;
                                   s5 = set_storedWorskpaceInfos
                                          (filter (\<lambda>i. \<not> isEqual e (profile i) (location p))
                                             (storedWorskpaceInfos s4)) s4;
                                   s6 = set_storedProfiles e
                                          (filter (\<lambda>sp. \<not> isEqual e (location sp) (location p))
                                             (storedProfiles s5)) s5
                               in (Returns (), s6))))))"

subsection \<open>Predicates of the statements\<close>

text \<open>
  The cache \<^verbatim>\<open>_profilesObject\<close> is either empty or holds what the stored state
  gives. Every operation keeps it so (\<open>cache_ok_preserved\<close> below), and a fresh
  service has an empty cache.
\<close>

definition cache_ok :: "'f env \<Rightarrow> 'f service \<Rightarrow> bool" where
  "cache_ok e s =
     (case cached_profilesObject s of None \<Rightarrow> True | Some po \<Rightarrow> po = computeProfilesObject e s)"

text \<open>The entries of the trace that delete files, and those that commit an operation: a
  write to the state store or a deletion.\<close>

definition isDel :: "effect \<Rightarrow> bool" where
  "isDel ef = (case ef of Del u r \<Rightarrow> True | _ \<Rightarrow> False)"

definition commits :: "effect \<Rightarrow> bool" where
  "commits ef = (case ef of SetItem k \<Rightarrow> True | Del u r \<Rightarrow> True | _ \<Rightarrow> False)"

text \<open>No stored association of a workspace names the location of the default profile.\<close>

definition noDefaultAssociation :: "'f env \<Rightarrow> 'f service \<Rightarrow> bool" where
  "noDefaultAssociation e s =
     list_all (\<lambda>info. \<not> isEqual e (profile info) (location (defaultProfile e)))
       (storedWorskpaceInfos s)"

subsection \<open>A small installation to run the service on\<close>

text \<open>
  The file service of the example keeps the list of the resources that exist;
  deleting recursively removes every resource whose path starts with the path
  deleted, and fails on a resource that does not exist.
\<close>

definition under :: "URI \<Rightarrow> URI \<Rightarrow> bool" where
  "under d u = (scheme u = scheme d \<and> take (length (path d)) (path u) = path d)"

definition exampleEnv :: "URI list env" where
  "exampleEnv =
     \<lparr>defaultProfile = \<lparr>name = ''default'', location = \<lparr>scheme = ''file'', path = ''/user''\<rparr>,
                         useDefaultFlags = None, isDefault = True\<rparr>,
      profilesHome = \<lparr>scheme = ''file'', path = ''/user/profiles''\<rparr>,
      isEqual = (\<lambda>a b. a = b),
      reviveProfile = (\<lambda>p sch. p\<lparr>location := (location p)\<lparr>scheme := sch\<rparr>\<rparr>),
      fs_exists = (\<lambda>f u. u \<in> set f),
      fs_createFolder = (\<lambda>f u. Inr (u # f)),
      fs_del = (\<lambda>f u r. if u \<in> set f then Inr (filter (\<lambda>x. \<not> under u x) f)
                          else Inl (Error ''not found'')),
      onWillCreateProfile = [\<lambda>p. [OnDelivery (Promise 1 Fulfilled)],
                             \<lambda>p. [OnDelivery (Promise 2 Fulfilled)]],
      onWillRemoveProfile = [\<lambda>p. [OnDelivery (Promise 3 Fulfilled)]]\<rparr>"

text \<open>
  The same installation with listeners that join one promise while the event is
  delivered and keep the event to join another one later, which never settles.
\<close>

definition lateEnv :: "URI list env" where
  "lateEnv =
     exampleEnv\<lparr>onWillCreateProfile :=
                   [\<lambda>p. [OnDelivery (Promise 1 Fulfilled), Later (Promise 7 Unsettled)]],
                 onWillRemoveProfile :=
                   [\<lambda>p. [OnDelivery (Promise 3 Fulfilled), Later (Promise 8 Unsettled)]]\<rparr>"

definition workProfile :: IUserDataProfile where
  "workProfile = \<lparr>name = ''work'', location = \<lparr>scheme = ''file'', path = ''/user/profiles/w''\<rparr>,
                   useDefaultFlags = None, isDefault = False\<rparr>"

definition homeProfile :: IUserDataProfile where
  "homeProfile = \<lparr>name = ''home'', location = \<lparr>scheme = ''file'', path = ''/user/profiles/h''\<rparr>,
                   useDefaultFlags = None, isDefault = False\<rparr>"

text \<open>
  A profile with the name of the default profile, and one that is located where the
  default profile is without being marked as the default one.
\<close>

definition namesakeProfile :: IUserDataProfile where
  "namesakeProfile =
     \<lparr>name = ''default'', location = \<lparr>scheme = ''file'', path = ''/user/profiles/d''\<rparr>,
      useDefaultFlags = None, isDefault = False\<rparr>"

definition shadowProfile :: IUserDataProfile where
  "shadowProfile = \<lparr>name = ''shadow'', location = \<lparr>scheme = ''file'', path = ''/user''\<rparr>,
                     useDefaultFlags = None, isDefault = False\<rparr>"

definition folderA :: WorkspaceIdentifier where
  "folderA = SingleFolderWorkspaceIdentifier ''a'' \<lparr>scheme = ''file'', path = ''/src/a''\<rparr>"

text \<open>A fresh service, and one that stores the profile \<open>work\<close> used by folder \<open>a\<close>.\<close>

definition emptyService :: "URI list service" where
  "emptyService =
     \<lparr>item_userDataProfiles = [], item_workspaceAndProfileInfo = [],
      cached_profilesObject = None, files = [], trace = []\<rparr>"

definition workService :: "URI list service" where
  "workService =
     \<lparr>item_userDataProfiles =
        [\<lparr>name = ''work'', location = \<lparr>scheme = ''file'', path = ''/user/profiles/w''\<rparr>,
          useDefaultFlags = None\<rparr>],
      item_workspaceAndProfileInfo =
        [\<lparr>workspace = \<lparr>scheme = ''file'', path = ''/src/a''\<rparr>,
          profile = \<lparr>scheme = ''file'', path = ''/user/profiles/w''\<rparr>\<rparr>],
      cached_profilesObject = None,
      files = [\<lparr>scheme = ''file'', path = ''/user/profiles''\<rparr>,
               \<lparr>scheme = ''file'', path = ''/user/profiles/w''\<rparr>],
      trace = []\<rparr>"

text \<open>A service with two stored profiles, and one whose only association names a
  profile that is no longer stored.\<close>

definition twoService :: "URI list service" where
  "twoService =
     \<lparr>item_userDataProfiles =
        [\<lparr>name = ''work'', location = \<lparr>scheme = ''file'', path = ''/user/profiles/w''\<rparr>,
          useDefaultFlags = None\<rparr>,
         \<lparr>name = ''home'', location = \<lparr>scheme = ''file'', path = ''/user/profiles/h''\<rparr>,
          useDefaultFlags = None\<rparr>],
      item_workspaceAndProfileInfo =
        [\<lparr>workspace = \<lparr>scheme = ''file'', path = ''/src/a''\<rparr>,
          profile = \<lparr>scheme = ''file'', path = ''/user/profiles/w''\<rparr>\<rparr>],
      cached_profilesObject = None,
      files = [\<lparr>scheme = ''file'', path = ''/user/profiles''\<rparr>,
               \<lparr>scheme = ''file'', path = ''/user/profiles/w''\<rparr>,
               \<lparr>scheme = ''file'', path = ''/user/profiles/h''\<rparr>],
      trace = []\<rparr>"

definition staleService :: "URI list service" where
  "staleService =
     \<lparr>item_userDataProfiles =
        [\<lparr>name = ''work'', location = \<lparr>scheme = ''file'', path = ''/user/profiles/w''\<rparr>,
          useDefaultFlags = None\<rparr>],
      item_workspaceAndProfileInfo =
        [\<lparr>workspace = \<lparr>scheme = ''file'', path = ''/src/a''\<rparr>,
          profile = \<lparr>scheme = ''file'', path = ''/user/profiles/gone''\<rparr>\<rparr>],
      cached_profilesObject = None,
      files = [\<lparr>scheme = ''file'', path = ''/user/profiles''\<rparr>,
               \<lparr>scheme = ''file'', path = ''/user/profiles/w''\<rparr>],
      trace = []\<rparr>"

definition folderB :: WorkspaceIdentifier where
  "folderB = WorkspaceIdentifier ''b'' \<lparr>scheme = ''file'', path = ''/src/b.code-workspace''\<rparr>"

section \<open>The markdown table of contents and the document symbols\<close>

text \<open>
  A shallow embedding of \<^verbatim>\<open>TableOfContents.buildToc\<close> (\<^verbatim>\<open>tableOfContents.ts\<close>) and
  of \<^verbatim>\<open>MdDocumentSymbolProvider\<close> (\<^verbatim>\<open>documentSymbolProvider.ts\<close>). What the
  markdown parser gives (the tokens) and the slugifier are arguments. Strings are
  lists of characters; whitespace is the ASCII whitespace.
\<close>

subsection \<open>Data\<close>

datatype Position = Position int int

datatype Range = Range (start: Position) (end': Position)

datatype Location = Location (uri: string) (range': Range)

record SkinnyTextDocument =
  doc_uri :: string
  lines :: "string list"

text \<open>A token of the parser, as far as \<^verbatim>\<open>buildToc\<close> reads it.\<close>

record Token =
  type' :: string
  map' :: "(int \<times> int) option"
  markup :: string

text \<open>A \<^verbatim>\<open>Slug\<close> is its \<^verbatim>\<open>value\<close>.\<close>

type_synonym Slug = string

record TocEntry =
  slug :: Slug
  text' :: string
  level :: int
  line :: int
  sectionLocation :: Location
  headerLocation :: Location
  headerTextLocation :: Location

datatype md_error = IllegalLine int | TypeError | RangeError

subsection \<open>The document\<close>

definition lineCount :: "SkinnyTextDocument \<Rightarrow> int" where
  "lineCount doc = int (length (lines doc))"

text \<open>\<^verbatim>\<open>lineAt\<close> throws on a line the document does not have.\<close>

definition lineAt :: "SkinnyTextDocument \<Rightarrow> int \<Rightarrow> md_error + string" where
  "lineAt doc n =
     (if 0 \<le> n \<and> n < lineCount doc then Inr (lines doc ! nat n) else Inl (IllegalLine n))"

subsection \<open>The text of a header\<close>

definition isSpace :: "char \<Rightarrow> bool" where
  "isSpace c = (c \<in> set [CHR '' '', CHR 0x09, CHR 0x0A, CHR 0x0B, CHR 0x0C, CHR 0x0D])"

definition isHash :: "char \<Rightarrow> bool" where
  "isHash c = (c = CHR ''#'')"

definition trim :: "string \<Rightarrow> string" where
  "trim s = rev (dropWhile isSpace (rev (dropWhile isSpace s)))"

text \<open>The length of the match of \<^verbatim>\<open>/^#+\s*/\<close>, or 0 when there is none.\<close>

definition headerPrefixLength :: "string \<Rightarrow> int" where
  "headerPrefixLength s =
     (if takeWhile isHash s = [] then 0
      else int (length (takeWhile isHash s))
           + int (length (takeWhile isSpace (dropWhile isHash s))))"

text \<open>The length of the match of \<^verbatim>\<open>/\s*#*$/\<close>: the hashes that end the line and the
  whitespace before them.\<close>

definition headerSuffixLength :: "string \<Rightarrow> int" where
  "headerSuffixLength s =
     int (length (takeWhile isHash (rev s)))
     + int (length (takeWhile isSpace (dropWhile isHash (rev s))))"

text \<open>
  \<^verbatim>\<open>header.replace(/^\s*#+\s*(.*?)(\s+#+)?$/, (_, word) => word.trim())\<close>: a header
  that does not start with hashes (after whitespace) is left as it is; otherwise the
  hashes and the whitespace around them go, then a closing run of hashes that follows
  whitespace, and the rest is trimmed.
\<close>

definition getHeaderText :: "string \<Rightarrow> string" where
  "getHeaderText header =
     (let s = dropWhile isSpace header
      in if takeWhile isHash s = [] then header
         else
           (let rest = dropWhile isSpace (dropWhile isHash s);
                r = rev rest;
                hashes = takeWhile isHash r;
                front = dropWhile isHash r;
                word = (if hashes \<noteq> [] \<and> takeWhile isSpace front \<noteq> []
                        then rev (dropWhile isSpace front) else rest)
            in trim word))"

definition getHeaderLevel :: "string \<Rightarrow> int" where
  "getHeaderLevel m =
     (if m = ''='' then 1 else if m = ''-'' then 2 else int (length m))"

subsection \<open>Numbers as text\<close>

text \<open>\<^verbatim>\<open>'-' + count\<close>: the counter in decimal.\<close>

definition digit :: "nat \<Rightarrow> char" where
  "digit d = ''0123456789'' ! d"

fun decimal :: "nat \<Rightarrow> string" where
  "decimal n = (if n < 10 then [digit n] else decimal (n div 10) @ [digit (n mod 10)])"

declare decimal.simps [simp del]

subsection \<open>\<^verbatim>\<open>buildToc\<close>\<close>

text \<open>
  The first loop, over the \<^verbatim>\<open>heading_open\<close> tokens: \<open>seen\<close> is
  \<^verbatim>\<open>existingSlugEntries\<close>, \<open>toc\<close> the entries pushed so far.
\<close>

definition newEntry :: "SkinnyTextDocument \<Rightarrow> Token \<Rightarrow> int \<Rightarrow> string \<Rightarrow> Slug \<Rightarrow> TocEntry" where
  "newEntry doc heading lineNumber lineText sl =
     (let headerLocation = Location (doc_uri doc)
            (Range (Position lineNumber 0) (Position lineNumber (int (length lineText))));
          headerTextLocation = Location (doc_uri doc)
            (Range (Position lineNumber (headerPrefixLength lineText))
                   (Position lineNumber (int (length lineText) - headerSuffixLength lineText)))
      in \<lparr>slug = sl,
          text' = getHeaderText lineText,
          level = getHeaderLevel (markup heading),
          line = lineNumber,
          sectionLocation = headerLocation,
          headerLocation = headerLocation,
          headerTextLocation = headerTextLocation\<rparr>)"

fun headings :: "(string \<Rightarrow> Slug) \<Rightarrow> SkinnyTextDocument \<Rightarrow> Token list
    \<Rightarrow> (string \<rightharpoonup> nat) \<Rightarrow> TocEntry list \<Rightarrow> md_error + TocEntry list" where
  "headings fromHeading doc [] seen toc = Inr toc"
| "headings fromHeading doc (heading # rest) seen toc =
     (case map' heading of
        None \<Rightarrow> headings fromHeading doc rest seen toc
      | Some (lineNumber, lineEnd) \<Rightarrow>
          (case lineAt doc lineNumber of
             Inl err \<Rightarrow> Inl err
           | Inr lineText \<Rightarrow>
               (let sl = fromHeading lineText
                in case seen sl of
                     Some count \<Rightarrow>
                       headings fromHeading doc rest (seen(sl \<mapsto> count + 1))
                         (toc @ [newEntry doc heading lineNumber lineText
                                   (fromHeading (sl @ ''-'' @ decimal (count + 1)))])
                   | None \<Rightarrow>
                       headings fromHeading doc rest (seen(sl \<mapsto> 0))
                         (toc @ [newEntry doc heading lineNumber lineText sl]))))"

text \<open>
  The inner loop of the second pass, over the entries after \<open>entry\<close>: the line
  before the first one whose level is not greater, or \<^verbatim>\<open>undefined\<close>.
\<close>

fun sectionEnd :: "TocEntry \<Rightarrow> TocEntry list \<Rightarrow> int option" where
  "sectionEnd entry [] = None"
| "sectionEnd entry (next # later) =
     (if level next \<le> level entry then Some (line next - 1) else sectionEnd entry later)"

text \<open>The second pass: \<^verbatim>\<open>toc.map\<close>, each entry with the entries after it.\<close>

fun sections :: "SkinnyTextDocument \<Rightarrow> TocEntry list \<Rightarrow> md_error + TocEntry list" where
  "sections doc [] = Inr []"
| "sections doc (entry # later) =
     (let endLine = (case sectionEnd entry later of Some e \<Rightarrow> e | None \<Rightarrow> lineCount doc - 1)
      in case lineAt doc endLine of
           Inl err \<Rightarrow> Inl err
         | Inr endText \<Rightarrow>
             (case sections doc later of
                Inl err \<Rightarrow> Inl err
              | Inr populated \<Rightarrow>
                  Inr (entry\<lparr>sectionLocation := Location (doc_uri doc)
                               (Range (start (range' (sectionLocation entry)))
                                      (Position endLine (int (length endText))))\<rparr> # populated)))"

definition buildToc :: "(string \<Rightarrow> Slug) \<Rightarrow> SkinnyTextDocument \<Rightarrow> Token list
    \<Rightarrow> md_error + TocEntry list" where
  "buildToc fromHeading doc tokens =
     (case headings fromHeading doc (filter (\<lambda>token. type' token = ''heading_open'') tokens)
             Map.empty [] of
        Inl err \<Rightarrow> Inl err
      | Inr toc \<Rightarrow> sections doc toc)"

subsection \<open>The slugifier\<close>

text \<open>
  Modelled from the spec: \<^verbatim>\<open>githubSlugifier\<close> of \<^verbatim>\<open>./slugify\<close>, the slugifier of the
  parser, is not among the sources. The spec calls a slug a normalized, URL-safe
  identifier derived from heading text. Normalized: the heading is trimmed and put in
  lower case, every run of whitespace becomes one dash, the punctuation characters
  are dropped, and so are the dashes at either end. URL-safe: the result is encoded as
  \<^verbatim>\<open>encodeURI\<close> does, every character that a URI cannot hold becoming the \<^verbatim>\<open>%XX\<close>
  escapes of its UTF-8 bytes. Characters are the code units U+0000 to U+00FF, so a
  character is escaped as one byte below U+0080 and as two bytes from there on.
\<close>

text \<open>\<^verbatim>\<open>trim\<close> and \<^verbatim>\<open>\s\<close>: the ASCII whitespace and the no-break space.\<close>

definition isWhiteSpace :: "char \<Rightarrow> bool" where
  "isWhiteSpace c = (isSpace c \<or> c = CHR 0xA0)"

definition String_trim :: "string \<Rightarrow> string" where
  "String_trim s = rev (dropWhile isWhiteSpace (rev (dropWhile isWhiteSpace s)))"

text \<open>\<^verbatim>\<open>toLowerCase\<close>: the letters A to Z and the capital letters from U+00C0 to U+00DE.\<close>

definition upperCaseLetters :: string where
  "upperCaseLetters = ''ABCDEFGHIJKLMNOPQRSTUVWXYZ''
     @ [CHR 0xC0, CHR 0xC1, CHR 0xC2, CHR 0xC3, CHR 0xC4, CHR 0xC5, CHR 0xC6, CHR 0xC7,
        CHR 0xC8, CHR 0xC9, CHR 0xCA, CHR 0xCB, CHR 0xCC, CHR 0xCD, CHR 0xCE, CHR 0xCF,
        CHR 0xD0, CHR 0xD1, CHR 0xD2, CHR 0xD3, CHR 0xD4, CHR 0xD5, CHR 0xD6,
        CHR 0xD8, CHR 0xD9, CHR 0xDA, CHR 0xDB, CHR 0xDC, CHR 0xDD, CHR 0xDE]"

definition lowerCaseLetters :: string where
  "lowerCaseLetters = ''abcdefghijklmnopqrstuvwxyz''
     @ [CHR 0xE0, CHR 0xE1, CHR 0xE2, CHR 0xE3, CHR 0xE4, CHR 0xE5, CHR 0xE6, CHR 0xE7,
        CHR 0xE8, CHR 0xE9, CHR 0xEA, CHR 0xEB, CHR 0xEC, CHR 0xED, CHR 0xEE, CHR 0xEF,
        CHR 0xF0, CHR 0xF1, CHR 0xF2, CHR 0xF3, CHR 0xF4, CHR 0xF5, CHR 0xF6,
        CHR 0xF8, CHR 0xF9, CHR 0xFA, CHR 0xFB, CHR 0xFC, CHR 0xFD, CHR 0xFE]"

definition lowerCase :: "char \<Rightarrow> char" where
  "lowerCase c = (case map_of (zip upperCaseLetters lowerCaseLetters) c of
                    Some l \<Rightarrow> l | None \<Rightarrow> c)"

definition String_toLowerCase :: "string \<Rightarrow> string" where
  "String_toLowerCase s = map lowerCase s"

text \<open>Every run of whitespace becomes one dash; \<open>inRun\<close> says that the character
  before was whitespace.\<close>

fun whitespaceToDash :: "bool \<Rightarrow> string \<Rightarrow> string" where
  "whitespaceToDash inRun [] = []"
| "whitespaceToDash inRun (c # s) =
     (if isWhiteSpace c
      then (if inRun then whitespaceToDash True s else CHR ''-'' # whitespaceToDash True s)
      else c # whitespaceToDash False s)"

text \<open>
  The punctuation characters that are dropped: the ASCII punctuation other than the
  dash and the underscore, the middle dot and the diaeresis.
\<close>

definition punctuators :: string where
  "punctuators = '']['' @ ''!/'' @ [CHR 0x27, CHR 0x22] @ ''#$%&()*+,.:;<=>?@'' @ [CHR 0x5C]
     @ ''^{|}~'' @ [CHR 0x60, CHR 0xB7, CHR 0xA8]"

definition isDash :: "char \<Rightarrow> bool" where
  "isDash c = (c = CHR ''-'')"

text \<open>
  \<^verbatim>\<open>encodeURI\<close> leaves the letters, the digits and the marks and reserved characters
  of a URI as they are, and escapes the bytes of every other character.
\<close>

definition uriUnescaped :: string where
  "uriUnescaped = ''ABCDEFGHIJKLMNOPQRSTUVWXYZabcdefghijklmnopqrstuvwxyz0123456789''
     @ '';,/?:@&=+$-_.!~*()#'' @ [CHR 0x27]"

definition hexDigit :: "nat \<Rightarrow> char" where
  "hexDigit k = ''0123456789ABCDEF'' ! (k mod 16)"

definition percentByte :: "nat \<Rightarrow> string" where
  "percentByte b = [CHR ''%'', hexDigit (b div 16), hexDigit b]"

definition encodeChar :: "char \<Rightarrow> string" where
  "encodeChar c =
     (if c \<in> set uriUnescaped then [c]
      else if (of_char c :: nat) < 128 then percentByte (of_char c)
      else percentByte (192 + of_char c div 64) @ percentByte (128 + of_char c mod 64))"

definition encodeURI :: "string \<Rightarrow> string" where
  "encodeURI s = concat (map encodeChar s)"

definition githubSlugifier :: "string \<Rightarrow> Slug" where
  "githubSlugifier heading =
     encodeURI
       (rev (dropWhile isDash (rev
          (dropWhile isDash
             (filter (\<lambda>c. c \<notin> set punctuators)
                (whitespaceToDash False (String_toLowerCase (String_trim heading))))))))"

text \<open>
  The characters \<^verbatim>\<open>encodeURI\<close> can give, and those a slug keeps when it is put through
  the slugifier again: lower-case letters, digits, the dash and the underscore.
\<close>

definition urlChars :: string where
  "urlChars = uriUnescaped @ ''%''"

definition plainChars :: string where
  "plainChars = ''abcdefghijklmnopqrstuvwxyz0123456789-_''"

subsection \<open>Predicates of the statements\<close>

text \<open>The line on which the section of \<open>entry\<close> ends, given the entries after it.\<close>

definition endLineOf :: "SkinnyTextDocument \<Rightarrow> TocEntry \<Rightarrow> TocEntry list \<Rightarrow> int" where
  "endLineOf doc entry later =
     (case sectionEnd entry later of Some e \<Rightarrow> e | None \<Rightarrow> lineCount doc - 1)"

text \<open>
  The lines of the heading tokens, in the order of the tokens. A parser gives them in
  the order of the document, each of them a line of the document.
\<close>

definition headingLines :: "Token list \<Rightarrow> int list" where
  "headingLines tokens =
     map fst (List.map_filter map' (filter (\<lambda>token. type' token = ''heading_open'') tokens))"

text \<open>
  The slug value the line of an entry gives, the number of earlier entries with the
  same value, and the slug \<^verbatim>\<open>buildToc\<close> gives an entry after that many collisions.
  \<open>seen_ok\<close> says what \<^verbatim>\<open>existingSlugEntries\<close> holds after the entries \<open>toc\<close>.
\<close>

definition rawSlug :: "(string \<Rightarrow> Slug) \<Rightarrow> SkinnyTextDocument \<Rightarrow> TocEntry \<Rightarrow> Slug" where
  "rawSlug fromHeading doc entry = fromHeading (lines doc ! nat (line entry))"

definition collisions :: "(string \<Rightarrow> Slug) \<Rightarrow> SkinnyTextDocument \<Rightarrow> TocEntry list \<Rightarrow> TocEntry \<Rightarrow> nat" where
  "collisions fromHeading doc earlier entry =
     length (filter (\<lambda>e. rawSlug fromHeading doc e = rawSlug fromHeading doc entry) earlier)"

definition expectedSlug :: "(string \<Rightarrow> Slug) \<Rightarrow> SkinnyTextDocument \<Rightarrow> TocEntry list \<Rightarrow> TocEntry \<Rightarrow> Slug" where
  "expectedSlug fromHeading doc earlier entry =
     (if collisions fromHeading doc earlier entry = 0 then rawSlug fromHeading doc entry
      else fromHeading (rawSlug fromHeading doc entry @ ''-''
             @ decimal (collisions fromHeading doc earlier entry)))"

definition seen_ok :: "(string \<Rightarrow> Slug) \<Rightarrow> SkinnyTextDocument \<Rightarrow> (string \<rightharpoonup> nat) \<Rightarrow> TocEntry list \<Rightarrow> bool" where
  "seen_ok f doc seen toc =
     (\<forall>s. seen s = (if filter (\<lambda>e. rawSlug f doc e = s) toc = [] then None
                     else Some (length (filter (\<lambda>e. rawSlug f doc e = s) toc) - 1)))"

definition slugs_ok :: "(string \<Rightarrow> Slug) \<Rightarrow> SkinnyTextDocument \<Rightarrow> TocEntry list \<Rightarrow> bool" where
  "slugs_ok f doc toc = (\<forall>k<length toc. slug (toc ! k) = expectedSlug f doc (take k toc) (toc ! k))"

subsection \<open>Documents to run \<^verbatim>\<open>buildToc\<close> on\<close>

text \<open>
  A small implementation of the \<^verbatim>\<open>Slugifier\<close> interface, for the examples in which the
  slugs do not matter: it drops the hashes, trims, and writes a dash for whitespace.
\<close>

definition sampleSlugify :: "string \<Rightarrow> Slug" where
  "sampleSlugify s =
     map (\<lambda>c. if isSpace c then CHR ''-'' else c) (trim (filter (\<lambda>c. \<not> isHash c) s))"

definition headingToken :: "int \<Rightarrow> string \<Rightarrow> Token" where
  "headingToken n m = \<lparr>type' = ''heading_open'', map' = Some (n, n + 1), markup = m\<rparr>"

definition inlineToken :: "int \<Rightarrow> Token" where
  "inlineToken n = \<lparr>type' = ''inline'', map' = Some (n, n + 1), markup = ''''\<rparr>"

definition exampleDoc :: SkinnyTextDocument where
  "exampleDoc = \<lparr>doc_uri = ''file:///readme.md'',
                  lines = [''# A'', ''text'', ''## B'', ''more'', ''# C'', ''end'']\<rparr>"

definition exampleTokens :: "Token list" where
  "exampleTokens = [headingToken 0 ''#'', inlineToken 0, inlineToken 1, headingToken 2 ''##'',
                    inlineToken 2, inlineToken 3, headingToken 4 ''#'', inlineToken 4, inlineToken 5]"

definition repeatedDoc :: SkinnyTextDocument where
  "repeatedDoc = \<lparr>doc_uri = ''file:///notes.md'', lines = [''# a b'', ''# a b'', ''## a b'']\<rparr>"

definition repeatedTokens :: "Token list" where
  "repeatedTokens = [headingToken 0 ''#'', headingToken 1 ''#'', headingToken 2 ''##'']"

text \<open>A document whose three headings read U+00E9, the letter e with an acute accent.\<close>

definition accentDoc :: SkinnyTextDocument where
  "accentDoc = \<lparr>doc_uri = ''file:///cafe.md'',
                 lines = [''# '' @ [CHR 0xE9], ''# '' @ [CHR 0xE9], ''## '' @ [CHR 0xE9]]\<rparr>"

definition accentTokens :: "Token list" where
  "accentTokens = [headingToken 0 ''#'', headingToken 1 ''#'', headingToken 2 ''##'']"

text \<open>A document whose third heading reads like the slug generated for its second.\<close>

definition clashDoc :: SkinnyTextDocument where
  "clashDoc = \<lparr>doc_uri = ''file:///clash.md'', lines = [''# a'', ''# a'', ''# a-1'']\<rparr>"

definition clashTokens :: "Token list" where
  "clashTokens = [headingToken 0 ''#'', headingToken 1 ''#'', headingToken 2 ''#'']"

definition slugsOf :: "md_error + TocEntry list \<Rightarrow> Slug list" where
  "slugsOf r = (case r of Inl err \<Rightarrow> [] | Inr toc \<Rightarrow> map slug toc)"

definition exampleToc :: "TocEntry list" where
  "exampleToc = projr (buildToc sampleSlugify exampleDoc exampleTokens)"

definition repeatedToc :: "TocEntry list" where
  "repeatedToc = projr (buildToc githubSlugifier repeatedDoc repeatedTokens)"

definition accentToc :: "TocEntry list" where
  "accentToc = projr (buildToc githubSlugifier accentDoc accentTokens)"

subsection \<open>The document symbols\<close>

text \<open>
  \<^verbatim>\<open>buildTree\<close> pushes a symbol on the \<^verbatim>\<open>children\<close> array of its parent and goes on
  with a \<^verbatim>\<open>MarkdownSymbol\<close> that holds the very array of the symbol, so later pushes
  are seen through the parent. The arrays therefore live in a store: \<open>arrays\<close> maps the
  address of an array to the symbols pushed on it, a symbol being the index at which
  it was made. \<open>RootChildren\<close> is the array of the root, \<open>ChildrenOf i\<close> the array made for
  symbol \<open>i\<close>. What \<^verbatim>\<open>provideDocumentSymbols\<close> returns is the array \<open>RootChildren\<close>,
  read in the final store.
\<close>

datatype array = RootChildren | ChildrenOf nat

datatype SymbolKind = SymbolKind_String

record DocumentSymbol =
  symbol_name :: string
  detail :: string
  kind :: SymbolKind
  symbol_range :: Range
  selectionRange :: Range
  children :: array

record heap =
  symbols :: "DocumentSymbol list"
  arrays :: "array \<Rightarrow> nat list"

text \<open>The level of a \<^verbatim>\<open>MarkdownSymbol\<close> is a number or \<^verbatim>\<open>-Infinity\<close> (the root).\<close>

datatype Level = MinusInfinity | Level int

datatype MarkdownSymbol =
  MarkdownSymbol (sym_level: Level) (parent: "MarkdownSymbol option") (sym_children: array)

text \<open>\<^verbatim>\<open>entry.level <= parent.level\<close>.\<close>

fun level_le :: "int \<Rightarrow> Level \<Rightarrow> bool" where
  "level_le l MinusInfinity = False"
| "level_le l (Level m) = (l \<le> m)"

text \<open>\<^verbatim>\<open>'#'.repeat(entry.level)\<close> throws a \<^verbatim>\<open>RangeError\<close> on a negative count.\<close>

definition getSymbolName :: "TocEntry \<Rightarrow> md_error + string" where
  "getSymbolName entry =
     (if level entry < 0 then Inl RangeError
      else Inr (replicate (nat (level entry)) CHR ''#'' @ '' '' @ text' entry))"

text \<open>\<open>fresh\<close> is the index of the symbol that is made, and so the address of its array.\<close>

definition toDocumentSymbol :: "nat \<Rightarrow> TocEntry \<Rightarrow> md_error + DocumentSymbol" where
  "toDocumentSymbol fresh entry =
     (case getSymbolName entry of
        Inl err \<Rightarrow> Inl err
      | Inr n \<Rightarrow>
          Inr \<lparr>symbol_name = n, detail = '''', kind = SymbolKind_String,
               symbol_range = range' (sectionLocation entry),
               selectionRange = range' (sectionLocation entry),
               children = ChildrenOf fresh\<rparr>)"

text \<open>
  \<^verbatim>\<open>while (entry.level <= parent.level) { parent = parent.parent!; }\<close>: reading
  \<^verbatim>\<open>level\<close> of an \<^verbatim>\<open>undefined\<close> parent is a \<^verbatim>\<open>TypeError\<close>.
\<close>

fun climb :: "int \<Rightarrow> MarkdownSymbol \<Rightarrow> md_error + MarkdownSymbol" where
  "climb l (MarkdownSymbol lv None ch) =
     (if level_le l lv then Inl TypeError else Inr (MarkdownSymbol lv None ch))"
| "climb l (MarkdownSymbol lv (Some up) ch) =
     (if level_le l lv then climb l up else Inr (MarkdownSymbol lv (Some up) ch))"

fun buildTree :: "heap \<Rightarrow> MarkdownSymbol \<Rightarrow> TocEntry list \<Rightarrow> md_error + heap" where
  "buildTree h par [] = Inr h"
| "buildTree h par (entry # rest) =
     (case toDocumentSymbol (length (symbols h)) entry of
        Inl err \<Rightarrow> Inl err
      | Inr symbol \<Rightarrow>
          (let h1 = h\<lparr>symbols := symbols h @ [symbol],
                       arrays := (arrays h)(children symbol := [])\<rparr>
           in case climb (level entry) par of
                Inl err \<Rightarrow> Inl err
              | Inr p \<Rightarrow>
                  (let h2 = h1\<lparr>arrays := (arrays h1)
                               (sym_children p := arrays h1 (sym_children p) @ [length (symbols h)])\<rparr>
                   in buildTree h2
                        (MarkdownSymbol (Level (level entry)) (Some p) (children symbol)) rest)))"

definition provideDocumentSymbols :: "TocEntry list \<Rightarrow> md_error + heap" where
  "provideDocumentSymbols toc =
     buildTree \<lparr>symbols = [], arrays = (\<lambda>a. [])\<rparr> (MarkdownSymbol MinusInfinity None RootChildren) toc"

text \<open>Symbol \<open>c\<close> is a child of symbol \<open>p\<close>; symbol \<open>b\<close> is a descendant of symbol \<open>a\<close>.\<close>

definition childOf :: "heap \<Rightarrow> nat \<Rightarrow> nat \<Rightarrow> bool" where
  "childOf h p c = (c \<in> set (arrays h (ChildrenOf p)))"

definition descendantOf :: "heap \<Rightarrow> nat \<Rightarrow> nat \<Rightarrow> bool" where
  "descendantOf h a b = (childOf h)\<^sup>+\<^sup>+ a b"

text \<open>What the proof keeps: the chain of parents, and the store.\<close>

inductive frame_ok :: "TocEntry list \<Rightarrow> nat \<Rightarrow> MarkdownSymbol \<Rightarrow> bool" for toc n where
  root: "frame_ok toc n (MarkdownSymbol MinusInfinity None RootChildren)"
| node: "i < n \<Longrightarrow> frame_ok toc n q
           \<Longrightarrow> frame_ok toc n (MarkdownSymbol (Level (level (toc ! i))) (Some q) (ChildrenOf i))"

definition heap_ok :: "TocEntry list \<Rightarrow> heap \<Rightarrow> bool" where
  "heap_ok toc h =
     (\<forall>arr c. c \<in> set (arrays h arr) \<longrightarrow>
        c < length (symbols h)
        \<and> (\<forall>p. arr = ChildrenOf p \<longrightarrow> p < c \<and> level (toc ! p) < level (toc ! c)))"

text \<open>The store after one turn of \<^verbatim>\<open>buildTree\<close>: the symbol is made and pushed on the array of \<open>q\<close>.\<close>

definition pushed :: "heap \<Rightarrow> DocumentSymbol \<Rightarrow> MarkdownSymbol \<Rightarrow> heap" where
  "pushed h symbol q =
     h\<lparr>symbols := symbols h @ [symbol],
       arrays := ((arrays h)(children symbol := []))
          (sym_children q := ((arrays h)(children symbol := [])) (sym_children q) @ [length (symbols h)])\<rparr>"

text \<open>A chain of parents that ends in the root.\<close>

fun rooted :: "MarkdownSymbol \<Rightarrow> bool" where
  "rooted (MarkdownSymbol lv None ch) = (lv = MinusInfinity)"
| "rooted (MarkdownSymbol lv (Some up) ch) = rooted up"

text \<open>A document with two consecutive headings of equal level.\<close>

definition siblingsDoc :: SkinnyTextDocument where
  "siblingsDoc = \<lparr>doc_uri = ''file:///guide.md'',
                   lines = [''# A'', ''## B'', ''## C'', ''# D'']\<rparr>"

definition siblingsTokens :: "Token list" where
  "siblingsTokens = [headingToken 0 ''#'', headingToken 1 ''##'', headingToken 2 ''##'',
                     headingToken 3 ''#'']"

definition siblingsToc :: "TocEntry list" where
  "siblingsToc = projr (buildToc sampleSlugify siblingsDoc siblingsTokens)"

definition siblingsHeap :: heap where
  "siblingsHeap = projr (provideDocumentSymbols siblingsToc)"

section \<open>Properties of the profiles service\<close>

lemmas example_defs = exampleEnv_def workService_def twoService_def staleService_def
  emptyService_def workProfile_def homeProfile_def folderA_def folderB_def under_def

lemmas service_defs = storedProfiles_def storedWorskpaceInfos_def computeProfilesObject_def
  profilesObject_def get_profiles_def set_storedProfiles_def set_storedWorskpaceInfos_def
  getProfile_def getAllProfiles_def setProfileForWorkspace_def createProfile_def removeProfile_def
  toUserDataProfile_def Promises_settled_def settledEffects_def fire_def joinedLater_def
  joinCalls_def map_filter_simps
  PROFILES_KEY_def WORKSPACE_PROFILE_INFO_KEY_def Let_def

subsection \<open>Frames of the getters and setters\<close>

lemma computeProfilesObject_cong:
  "storedProfiles s = storedProfiles s' \<Longrightarrow> storedWorskpaceInfos s = storedWorskpaceInfos s'
     \<Longrightarrow> computeProfilesObject e s = computeProfilesObject e s'"
  by (simp add: computeProfilesObject_def)

lemma profilesObject_cache_ok:
  "cache_ok e s \<Longrightarrow>
     profilesObject e s
       = (computeProfilesObject e s, s\<lparr>cached_profilesObject := Some (computeProfilesObject e s)\<rparr>)"
  by (auto simp: cache_ok_def profilesObject_def Let_def split: option.splits)

lemma profiles_computeProfilesObject:
  "length (profiles (computeProfilesObject e s)) = Suc (length (storedProfiles s))"
  by (simp add: computeProfilesObject_def Let_def)

lemma get_profiles_cache_ok:
  "cache_ok e s \<Longrightarrow>
     get_profiles e s
       = (profiles (computeProfilesObject e s),
          s\<lparr>cached_profilesObject := Some (computeProfilesObject e s)\<rparr>)"
  by (simp add: get_profiles_def profilesObject_cache_ok)

lemma computeProfilesObject_simps [simp]:
  "computeProfilesObject e (s\<lparr>trace := t\<rparr>) = computeProfilesObject e s"
  "computeProfilesObject e (s\<lparr>files := f\<rparr>) = computeProfilesObject e s"
  "computeProfilesObject e (s\<lparr>cached_profilesObject := c\<rparr>) = computeProfilesObject e s"
  by (simp_all add: computeProfilesObject_def storedProfiles_def storedWorskpaceInfos_def)

lemma cache_ok_simps [simp]:
  "cache_ok e (s\<lparr>trace := t\<rparr>) = cache_ok e s"
  "cache_ok e (s\<lparr>files := f\<rparr>) = cache_ok e s"
  "cache_ok e (s\<lparr>cached_profilesObject := None\<rparr>)"
  "cache_ok e (s\<lparr>cached_profilesObject := Some (computeProfilesObject e s)\<rparr>)"
  by (simp_all add: cache_ok_def split: option.splits)

lemma storedProfiles_simps [simp]:
  "storedProfiles (s\<lparr>trace := t\<rparr>) = storedProfiles s"
  "storedProfiles (s\<lparr>files := f\<rparr>) = storedProfiles s"
  "storedProfiles (s\<lparr>cached_profilesObject := c\<rparr>) = storedProfiles s"
  "storedProfiles (s\<lparr>item_workspaceAndProfileInfo := i\<rparr>) = storedProfiles s"
  "storedProfiles (s\<lparr>item_userDataProfiles := v\<rparr>) = v"
  by (simp_all add: storedProfiles_def)

lemma storedWorskpaceInfos_simps [simp]:
  "storedWorskpaceInfos (s\<lparr>trace := t\<rparr>) = storedWorskpaceInfos s"
  "storedWorskpaceInfos (s\<lparr>files := f\<rparr>) = storedWorskpaceInfos s"
  "storedWorskpaceInfos (s\<lparr>cached_profilesObject := c\<rparr>) = storedWorskpaceInfos s"
  "storedWorskpaceInfos (s\<lparr>item_userDataProfiles := v\<rparr>) = storedWorskpaceInfos s"
  "storedWorskpaceInfos (s\<lparr>item_workspaceAndProfileInfo := i\<rparr>) = i"
  by (simp_all add: storedWorskpaceInfos_def)

lemma set_storedWorskpaceInfos_trace:
  "trace (set_storedWorskpaceInfos v s) = trace s @ [SetItem WORKSPACE_PROFILE_INFO_KEY]"
  by (simp add: set_storedWorskpaceInfos_def)

lemma set_storedProfiles_eq:
  "set_storedProfiles e v s =
     (let s1 = s\<lparr>item_userDataProfiles := v\<rparr>;
          po = computeProfilesObject e s1
      in s1\<lparr>cached_profilesObject := Some po,
             trace := trace s @ [SetItem PROFILES_KEY, DidChangeProfiles (profiles po)]\<rparr>)"
  by (simp add: set_storedProfiles_def get_profiles_def profilesObject_def Let_def)

lemma isDel_fired [simp]:
  "filter isDel (settledEffects js) = []" "filter isDel (map (\<lambda>j. Join (pid j)) js) = []"
  by (induction js) (simp_all add: settledEffects_def isDel_def)

text \<open>
  C5. \<^verbatim>\<open>removeProfile\<close> on a stored profile that is not the default one, once the
  joined promises are fulfilled, calls the file service's \<^verbatim>\<open>del\<close> exactly once and
  recursively: on the profiles home when the stored profile list has one entry (the
  list \<^verbatim>\<open>profiles\<close>, which counts the default profile, has length two), and on the
  profile's own location otherwise. The file system is what \<^verbatim>\<open>del\<close> returns; when
  \<^verbatim>\<open>del\<close> fails the operation throws and the file system is as it was.
\<close>

theorem removeProfile_deletes:
  assumes ok: "cache_ok e s"
    and nd: "\<not> isDefault p0"
    and p: "p = reviveProfile e p0 (scheme (profilesHome e))"
    and sp: "sp \<in> set (storedProfiles s)" "isEqual e (location sp) (location p)"
    and js: "Promises_settled (fire (onWillRemoveProfile e) p) = Returns ()"
    and t: "target = (if length (storedProfiles s) = 1 then profilesHome e else location p)"
  shows "filter isDel (trace (snd (removeProfile e s p0)))
           = filter isDel (trace s) @ [Del target True]
         \<and> (length (fst (get_profiles e s)) = 2 \<longleftrightarrow> length (storedProfiles s) = 1)
         \<and> (case fs_del e (files s) target True of
              Inr f \<Rightarrow> files (snd (removeProfile e s p0)) = f
            | Inl err \<Rightarrow> removeProfile e s p0 = (Throws err, snd (removeProfile e s p0))
                         \<and> files (snd (removeProfile e s p0)) = files s)"
proof -
  from sp have ex: "list_ex (\<lambda>sp. isEqual e (location sp) (location p)) (storedProfiles s)"
    unfolding list_ex_iff by blast
  show ?thesis
    using ok nd p ex js t
    apply (simp add: removeProfile_def Let_def get_profiles_cache_ok profiles_computeProfilesObject
        set_storedProfiles_eq set_storedWorskpaceInfos_def isDel_def split: sum.splits)
    done
qed

lemma profilesObject_frame [simp]:
  "trace (snd (profilesObject e s)) = trace s"
  "files (snd (profilesObject e s)) = files s"
  "storedProfiles (snd (profilesObject e s)) = storedProfiles s"
  "storedWorskpaceInfos (snd (profilesObject e s)) = storedWorskpaceInfos s"
  by (simp_all add: profilesObject_def Let_def split: option.splits)

lemma cache_ok_profilesObject [simp]:
  "cache_ok e (snd (profilesObject e s)) = cache_ok e s"
  by (auto simp: profilesObject_def Let_def cache_ok_def split: option.splits)

lemma set_storedProfiles_frame [simp]:
  "storedProfiles (set_storedProfiles e v s) = v"
  "storedWorskpaceInfos (set_storedProfiles e v s) = storedWorskpaceInfos s"
  "files (set_storedProfiles e v s) = files s"
  "cache_ok e (set_storedProfiles e v s)"
  by (simp_all add: set_storedProfiles_eq Let_def cache_ok_def)

lemma set_storedWorskpaceInfos_frame [simp]:
  "storedProfiles (set_storedWorskpaceInfos v s) = storedProfiles s"
  "storedWorskpaceInfos (set_storedWorskpaceInfos v s) = v"
  "files (set_storedWorskpaceInfos v s) = files s"
  "cache_ok e (set_storedWorskpaceInfos v s)"
  by (simp_all add: set_storedWorskpaceInfos_def cache_ok_def)

lemma setProfileForWorkspace_frame:
  "trace (snd (setProfileForWorkspace e s p0 w)) = trace s @ [SetItem WORKSPACE_PROFILE_INFO_KEY]"
  "storedProfiles (snd (setProfileForWorkspace e s p0 w)) = storedProfiles s"
  "files (snd (setProfileForWorkspace e s p0 w)) = files s"
  "cache_ok e (snd (setProfileForWorkspace e s p0 w))"
  by (simp_all add: setProfileForWorkspace_def Let_def split_beta set_storedWorskpaceInfos_trace)

lemma setProfileForWorkspace_infos:
  "storedWorskpaceInfos (snd (setProfileForWorkspace e s p0 w)) =
     (let p = reviveProfile e p0 (scheme (profilesHome e));
          kept = filter (\<lambda>info. \<not> isEqual e (workspace info) (getWorkspace w))
                   (storedWorskpaceInfos s)
      in if isDefault p then kept
         else kept @ [\<lparr>workspace = getWorkspace w, profile = location p\<rparr>])"
  by (simp add: setProfileForWorkspace_def Let_def split_beta)

lemma createProfile_trace:
  "trace (snd (createProfile e s p0 w)) = trace s @
     (let p = reviveProfile e p0 (scheme (profilesHome e));
          js = fire (onWillCreateProfile e) p
      in if list_ex (\<lambda>sp. name sp = name p) (storedProfiles s) then []
         else (if fs_exists e (files s) (profilesHome e) then [] else [CreateFolder (profilesHome e)])
            @ (if \<not> fs_exists e (files s) (profilesHome e)
                  \<and> isl (fs_createFolder e (files s) (profilesHome e)) then []
               else WillCreateProfile p # map (\<lambda>j. Join (pid j)) js
                  @ map (\<lambda>j. Join (pid j)) (joinedLater (onWillCreateProfile e) p)
                  @ settledEffects js
                  @ (if Promises_settled js = Returns ()
                     then [SetItem PROFILES_KEY,
                           DidChangeProfiles (profiles (computeProfilesObject e
                             (s\<lparr>item_userDataProfiles := storedProfiles s @
                                 [\<lparr>name = name p, location = location p,
                                   useDefaultFlags = useDefaultFlags p\<rparr>]\<rparr>)))]
                          @ (case w of None \<Rightarrow> [] | Some x \<Rightarrow> [SetItem WORKSPACE_PROFILE_INFO_KEY])
                     else [])))"
  by (simp add: createProfile_def Let_def split_beta set_storedProfiles_eq setProfileForWorkspace_frame
      computeProfilesObject_def storedProfiles_def storedWorskpaceInfos_def
      split: sum.splits outcome.splits option.splits)

lemma removeProfile_trace:
  "trace (snd (removeProfile e s p0)) = trace s @
     (let p = reviveProfile e p0 (scheme (profilesHome e));
          js = fire (onWillRemoveProfile e) p;
          target = (if length (fst (get_profiles e s)) = 2 then profilesHome e else location p)
      in if isDefault p0 \<or> \<not> list_ex (\<lambda>sp. isEqual e (location sp) (location p)) (storedProfiles s)
         then []
         else WillRemoveProfile p # map (\<lambda>j. Join (pid j)) js
            @ map (\<lambda>j. Join (pid j)) (joinedLater (onWillRemoveProfile e) p)
            @ settledEffects js
            @ (if Promises_settled js = Returns ()
               then Del target True #
                    (if isl (fs_del e (files s) target True) then []
                     else [SetItem WORKSPACE_PROFILE_INFO_KEY, SetItem PROFILES_KEY,
                           DidChangeProfiles (profiles (computeProfilesObject e
                             (s\<lparr>item_workspaceAndProfileInfo :=
                                  filter (\<lambda>i. \<not> isEqual e (profile i) (location p))
                                    (storedWorskpaceInfos s),
                                item_userDataProfiles :=
                                  filter (\<lambda>sp. \<not> isEqual e (location sp) (location p))
                                    (storedProfiles s)\<rparr>)))])
               else []))"
  by (auto simp: removeProfile_def Let_def split_beta set_storedProfiles_eq set_storedWorskpaceInfos_def
      get_profiles_def profilesObject_def
      computeProfilesObject_def storedProfiles_def storedWorskpaceInfos_def
      split: sum.splits outcome.splits option.splits)

lemma commit_after_fired:
  assumes new: "new = front @ post"
    and front: "\<forall>x\<in>set front. \<not> commits x"
    and split: "new = a @ c # b" and c: "commits c"
  shows "post \<noteq> [] \<and> set front \<subseteq> set a"
proof -
  from new split have eq: "front @ post = a @ c # b" by simp
  then obtain us where "(front = a @ us \<and> us @ post = c # b) \<or> (front @ us = a \<and> post = us @ c # b)"
    unfolding append_eq_append_conv2 by blast
  then have "\<exists>us. front @ us = a \<and> post = us @ c # b"
  proof
    assume h: "front = a @ us \<and> us @ post = c # b"
    show ?thesis
    proof (cases us)
      case Nil
      with h show ?thesis by auto
    next
      case (Cons u us')
      with h have "u = c" "c \<in> set front" by auto
      with front c show ?thesis by blast
    qed
  next
    assume "front @ us = a \<and> post = us @ c # b"
    then show ?thesis by blast
  qed
  then obtain us where a: "front @ us = a" and p: "post = us @ c # b" by blast
  from p have "post \<noteq> []" by simp
  moreover from a have "set front \<subseteq> set a" by auto
  ultimately show ?thesis by blast
qed

lemma Promises_settled_Returns:
  "Promises_settled js = Returns () \<Longrightarrow> settledEffects js = map (\<lambda>j. Settled (pid j)) js"
  by (auto simp: Promises_settled_def settledEffects_def list_ex_iff filter_id_conv split: if_splits)

theorem removeProfile_deletes_witness:
  "filter isDel (trace (snd (removeProfile exampleEnv workService workProfile)))
     = [Del \<lparr>scheme = ''file'', path = ''/user/profiles''\<rparr> True]
   \<and> files (snd (removeProfile exampleEnv workService workProfile)) = []
   \<and> filter isDel (trace (snd (removeProfile exampleEnv twoService workProfile)))
     = [Del \<lparr>scheme = ''file'', path = ''/user/profiles/w''\<rparr> True]
   \<and> files (snd (removeProfile exampleEnv twoService workProfile))
     = [\<lparr>scheme = ''file'', path = ''/user/profiles''\<rparr>,
        \<lparr>scheme = ''file'', path = ''/user/profiles/h''\<rparr>]"
proof -
  let ?sp = "\<lparr>name = ''work'', location = \<lparr>scheme = ''file'', path = ''/user/profiles/w''\<rparr>,
              useDefaultFlags = None\<rparr>"
  have nd: "\<not> isDefault workProfile" by (simp add: workProfile_def)
  have p: "workProfile = reviveProfile exampleEnv workProfile (scheme (profilesHome exampleEnv))"
    by (simp add: example_defs)
  have eq: "isEqual exampleEnv (location ?sp) (location workProfile)"
    by (simp add: example_defs)
  have js: "Promises_settled (fire (onWillRemoveProfile exampleEnv) workProfile) = Returns ()"
    by (simp add: example_defs Promises_settled_def fire_def joinCalls_def map_filter_simps)
  have ok1: "cache_ok exampleEnv workService" by (simp add: cache_ok_def workService_def)
  have ok2: "cache_ok exampleEnv twoService" by (simp add: cache_ok_def twoService_def)
  have sp1: "?sp \<in> set (storedProfiles workService)"
    by (simp add: storedProfiles_def workService_def)
  have sp2: "?sp \<in> set (storedProfiles twoService)"
    by (simp add: storedProfiles_def twoService_def)
  note one = removeProfile_deletes [OF ok1 nd p sp1 eq js refl]
  note two = removeProfile_deletes [OF ok2 nd p sp2 eq js refl]
  have t1: "trace workService = []" "files workService =
      [\<lparr>scheme = ''file'', path = ''/user/profiles''\<rparr>,
       \<lparr>scheme = ''file'', path = ''/user/profiles/w''\<rparr>]"
    "length (storedProfiles workService) = 1"
    by (simp_all add: workService_def storedProfiles_def)
  have t2: "trace twoService = []" "files twoService =
      [\<lparr>scheme = ''file'', path = ''/user/profiles''\<rparr>,
       \<lparr>scheme = ''file'', path = ''/user/profiles/w''\<rparr>,
       \<lparr>scheme = ''file'', path = ''/user/profiles/h''\<rparr>]"
    "length (storedProfiles twoService) = 2"
    by (simp_all add: twoService_def storedProfiles_def)
  have e: "profilesHome exampleEnv = \<lparr>scheme = ''file'', path = ''/user/profiles''\<rparr>"
    "location workProfile = \<lparr>scheme = ''file'', path = ''/user/profiles/w''\<rparr>"
    "fs_del exampleEnv = (\<lambda>f u r. if u \<in> set f then Inr (filter (\<lambda>x. \<not> under u x) f)
                          else Inl (Error ''not found''))"
    by (simp_all add: exampleEnv_def workProfile_def)
  from one two show ?thesis
    by (simp add: t1 t2 e under_def)
qed

subsection \<open>Errors of \<^verbatim>\<open>removeProfile\<close> and \<^verbatim>\<open>createProfile\<close>\<close>

text \<open>
  C4. For every state of the service, \<^verbatim>\<open>removeProfile\<close> called with the
  default profile (a profile whose \<^verbatim>\<open>isDefault\<close> is set) throws
  \<^verbatim>\<open>Cannot remove default profile\<close> and leaves the whole state as it was: the
  stored profile list, the stored workspace associations, the file system, and the
  trace, so no will-remove event is fired and nothing is deleted.
\<close>

theorem removeProfile_default_throws:
  assumes "isDefault p"
  shows "removeProfile e s p = (Throws (Error ''Cannot remove default profile''), s)"
  using assms by (simp add: removeProfile_def)

theorem removeProfile_default_throws_witness:
  "isDefault (defaultProfile exampleEnv) \<and>
   removeProfile exampleEnv workService (defaultProfile exampleEnv)
     = (Throws (Error ''Cannot remove default profile''), workService)"
proof -
  have d: "isDefault (defaultProfile exampleEnv)"
    by (simp add: exampleEnv_def)
  from removeProfile_default_throws [OF d, of exampleEnv workService] d
  show ?thesis by simp
qed

text \<open>
  C6 (as amended). For every state of the service, \<^verbatim>\<open>createProfile\<close> called with a
  profile whose name (as revived) is the name of a stored profile, that is, of an
  existing profile other than the default one, throws
  \<^verbatim>\<open>Profile with name ... already exists\<close> and leaves the whole state as it was:
  the stored profile list and the workspace associations are unchanged and the
  trace has no new entry, so no will-create event is fired.
\<close>

theorem createProfile_duplicate_name_throws:
  assumes "p = reviveProfile e p0 (scheme (profilesHome e))"
    and "sp \<in> set (storedProfiles s)" and "name sp = name p"
  shows "createProfile e s p0 w
           = (Throws (Error (''Profile with name '' @ name p @ '' already exists'')), s)"
proof -
  from assms(2,3) have "list_ex (\<lambda>x. name x = name p) (storedProfiles s)"
    unfolding list_ex_iff by blast
  with assms(1) show ?thesis
    by (simp add: createProfile_def Let_def)
qed

theorem createProfile_duplicate_name_throws_witness:
  "createProfile exampleEnv workService (homeProfile\<lparr>name := ''work''\<rparr>) (Some folderA)
     = (Throws (Error ''Profile with name work already exists''), workService)"
proof -
  let ?p0 = "homeProfile\<lparr>name := ''work''\<rparr>"
  let ?sp = "\<lparr>name = ''work'', location = \<lparr>scheme = ''file'', path = ''/user/profiles/w''\<rparr>,
              useDefaultFlags = None\<rparr>"
  have a: "?p0 = reviveProfile exampleEnv ?p0 (scheme (profilesHome exampleEnv))"
    by (simp add: exampleEnv_def homeProfile_def)
  have b: "?sp \<in> set (storedProfiles workService)"
    by (simp add: storedProfiles_def workService_def)
  have c: "name ?sp = name ?p0"
    by simp
  from createProfile_duplicate_name_throws [OF a b c, of "Some folderA"]
  show ?thesis by simp
qed

text \<open>
  C6 as stated fails for the name of the default profile, which is an existing
  profile but not a stored one: \<^verbatim>\<open>createProfile\<close> looks for the name among the stored
  profiles only, so a profile named like the default one is created, and the service
  then lists two profiles of that name.
\<close>

theorem createProfile_default_name_counterexample:
  "map name (fst (getAllProfiles exampleEnv workService)) = [''default'', ''work'']
   \<and> name namesakeProfile = ''default''
   \<and> fst (createProfile exampleEnv workService namesakeProfile None)
       = Returns (Some namesakeProfile)
   \<and> map name (fst (getAllProfiles exampleEnv
         (snd (createProfile exampleEnv workService namesakeProfile None))))
       = [''default'', ''work'', ''default'']"
  by (simp add: example_defs service_defs namesakeProfile_def)

text \<open>
  C7. For every state of the service, \<^verbatim>\<open>removeProfile\<close> called with a profile
  that is not the default one and whose location (as revived) is the location of no
  stored profile throws \<^verbatim>\<open>Profile with name ... does not exist\<close> and leaves the
  whole state as it was: the stored state and the file system are unchanged and
  the trace has no new entry, so no will-remove event is fired and nothing is
  deleted.
\<close>

theorem removeProfile_unknown_throws:
  assumes "\<not> isDefault p0"
    and "p = reviveProfile e p0 (scheme (profilesHome e))"
    and "\<forall>sp \<in> set (storedProfiles s). \<not> isEqual e (location sp) (location p)"
  shows "removeProfile e s p0
           = (Throws (Error (''Profile with name '' @ name p @ '' does not exist'')), s)"
proof -
  from assms(3) have "\<not> list_ex (\<lambda>sp. isEqual e (location sp) (location p)) (storedProfiles s)"
    unfolding list_ex_iff by blast
  with assms(1,2) show ?thesis
    by (simp add: removeProfile_def Let_def)
qed

theorem removeProfile_unknown_throws_witness:
  "removeProfile exampleEnv workService homeProfile
     = (Throws (Error ''Profile with name home does not exist''), workService)"
proof -
  have a: "\<not> isDefault homeProfile"
    by (simp add: homeProfile_def)
  have b: "homeProfile = reviveProfile exampleEnv homeProfile (scheme (profilesHome exampleEnv))"
    by (simp add: exampleEnv_def homeProfile_def)
  have c: "\<forall>sp \<in> set (storedProfiles workService).
             \<not> isEqual exampleEnv (location sp) (location homeProfile)"
    by (simp add: storedProfiles_def workService_def exampleEnv_def homeProfile_def)
  from removeProfile_unknown_throws [OF a b c]
  show ?thesis by (simp add: homeProfile_def)
qed

subsection \<open>The order of joining, settling and committing\<close>

lemma firstRejection_None:
  "firstRejection js = None \<Longrightarrow> j \<in> set js \<Longrightarrow> fate j \<noteq> Rejected err"
  by (induction js) (auto split: settlement.splits)

lemma Promises_settled_fates:
  assumes "Promises_settled js = Returns ()"
  shows "\<forall>j\<in>set js. fate j = Fulfilled"
proof
  fix j assume j: "j \<in> set js"
  from assms have u: "\<not> list_ex (\<lambda>p. fate p = Unsettled) js"
    by (simp add: Promises_settled_def split: if_splits)
  with assms have "firstRejection js = None"
    by (simp add: Promises_settled_def split: option.splits)
  with j have r: "\<And>err. fate j \<noteq> Rejected err" by (rule firstRejection_None [rotated])
  from u j have "fate j \<noteq> Unsettled" by (auto simp: list_ex_iff)
  with r show "fate j = Fulfilled" by (cases "fate j") auto
qed

lemma not_commits_simps [simp]:
  "\<not> commits (WillCreateProfile p)" "\<not> commits (WillRemoveProfile p)"
  "\<not> commits (CreateFolder u)" "\<not> commits (Join n)" "\<not> commits (Settled n)"
  "\<not> commits (DidChangeProfiles ps)" "commits (SetItem k)" "commits (Del u r)"
  by (simp_all add: commits_def)

lemma settledEffects_plain:
  "\<forall>x\<in>set (settledEffects js). \<not> commits x"
  by (auto simp: settledEffects_def)

lemma drop_prefix: "t = a @ x \<Longrightarrow> drop (length a) t = x"
  by simp

lemma createProfile_commit:
  assumes split: "drop (length (trace s)) (trace (snd (createProfile e s p0 w))) = a @ c # b"
    and c: "commits c"
    and p: "p = reviveProfile e p0 (scheme (profilesHome e))"
  shows "\<forall>j\<in>set (fire (onWillCreateProfile e) p).
           fate j = Fulfilled \<and> Join (pid j) \<in> set a \<and> Settled (pid j) \<in> set a"
proof -
  define js where "js = fire (onWillCreateProfile e) p"
  define later where "later = joinedLater (onWillCreateProfile e) p"
  define new where "new = drop (length (trace s)) (trace (snd (createProfile e s p0 w)))"
  define pre where
    "pre = (if fs_exists e (files s) (profilesHome e) then [] else [CreateFolder (profilesHome e)])"
  define post where "post = (if Promises_settled js = Returns ()
     then [SetItem PROFILES_KEY,
           DidChangeProfiles (profiles (computeProfilesObject e
             (s\<lparr>item_userDataProfiles := storedProfiles s @
                 [\<lparr>name = name p, location = location p,
                   useDefaultFlags = useDefaultFlags p\<rparr>]\<rparr>)))]
          @ (case w of None \<Rightarrow> [] | Some x \<Rightarrow> [SetItem WORKSPACE_PROFILE_INFO_KEY])
     else [])"
  define front where
    "front = pre @ WillCreateProfile p # map (\<lambda>j. Join (pid j)) js
               @ map (\<lambda>j. Join (pid j)) later @ settledEffects js"
  have new: "new = (if list_ex (\<lambda>sp. name sp = name p) (storedProfiles s) then []
         else pre @ (if \<not> fs_exists e (files s) (profilesHome e)
                  \<and> isl (fs_createFolder e (files s) (profilesHome e)) then []
               else WillCreateProfile p # map (\<lambda>j. Join (pid j)) js
                      @ map (\<lambda>j. Join (pid j)) later @ settledEffects js @ post))"
    unfolding new_def createProfile_trace [of e s p0 w] p js_def later_def pre_def post_def Let_def
    by (rule drop_prefix [OF refl])
  from split have ab: "new = a @ c # b" by (simp add: new_def)
  have fired: "new = front @ post"
  proof (cases "list_ex (\<lambda>sp. name sp = name p) (storedProfiles s)")
    case True
    with new ab show ?thesis by simp
  next
    case nodup: False
    show ?thesis
    proof (cases "\<not> fs_exists e (files s) (profilesHome e)
                  \<and> isl (fs_createFolder e (files s) (profilesHome e))")
      case True
      with nodup new have "new = [CreateFolder (profilesHome e)]" by (simp add: pre_def)
      with ab have "c = CreateFolder (profilesHome e)"
        by (cases a) auto
      with c show ?thesis by simp
    next
      case False
      with nodup new have "new = pre @ WillCreateProfile p # map (\<lambda>j. Join (pid j)) js
                                   @ map (\<lambda>j. Join (pid j)) later @ settledEffects js @ post"
        by presburger
      then show ?thesis by (simp add: front_def)
    qed
  qed
  have front: "\<forall>x\<in>set front. \<not> commits x"
    using settledEffects_plain [of js] by (auto simp: front_def pre_def)
  from commit_after_fired [OF fired front ab c]
  have ne: "post \<noteq> []" and sub: "set front \<subseteq> set a" by simp_all
  from ne have ret: "Promises_settled js = Returns ()" by (simp add: post_def split: if_splits)
  then have f: "\<forall>j\<in>set js. fate j = Fulfilled" by (rule Promises_settled_fates)
  from sub have j: "\<forall>j\<in>set js. Join (pid j) \<in> set a" by (auto simp: front_def)
  from sub have st: "\<forall>j\<in>set js. Settled (pid j) \<in> set a"
    by (auto simp: front_def Promises_settled_Returns [OF ret])
  from f j st show ?thesis unfolding js_def by blast
qed

lemma removeProfile_commit:
  assumes split: "drop (length (trace s)) (trace (snd (removeProfile e s p0))) = a @ c # b"
    and c: "commits c"
    and p: "p = reviveProfile e p0 (scheme (profilesHome e))"
  shows "\<forall>j\<in>set (fire (onWillRemoveProfile e) p).
           fate j = Fulfilled \<and> Join (pid j) \<in> set a \<and> Settled (pid j) \<in> set a"
proof -
  define js where "js = fire (onWillRemoveProfile e) p"
  define later where "later = joinedLater (onWillRemoveProfile e) p"
  define new where "new = drop (length (trace s)) (trace (snd (removeProfile e s p0)))"
  define target where
    "target = (if length (fst (get_profiles e s)) = 2 then profilesHome e else location p)"
  define post where "post = (if Promises_settled js = Returns ()
     then Del target True #
          (if isl (fs_del e (files s) target True) then []
           else [SetItem WORKSPACE_PROFILE_INFO_KEY, SetItem PROFILES_KEY,
                 DidChangeProfiles (profiles (computeProfilesObject e
                   (s\<lparr>item_workspaceAndProfileInfo :=
                        filter (\<lambda>i. \<not> isEqual e (profile i) (location p))
                          (storedWorskpaceInfos s),
                      item_userDataProfiles :=
                        filter (\<lambda>sp. \<not> isEqual e (location sp) (location p))
                          (storedProfiles s)\<rparr>)))])
     else [])"
  define front where
    "front = WillRemoveProfile p # map (\<lambda>j. Join (pid j)) js
               @ map (\<lambda>j. Join (pid j)) later @ settledEffects js"
  have new: "new = (if isDefault p0 \<or> \<not> list_ex (\<lambda>sp. isEqual e (location sp) (location p)) (storedProfiles s)
         then []
         else WillRemoveProfile p # map (\<lambda>j. Join (pid j)) js
                @ map (\<lambda>j. Join (pid j)) later @ settledEffects js @ post)"
    unfolding new_def removeProfile_trace [of e s p0] p js_def later_def target_def post_def Let_def
    by (rule drop_prefix [OF refl])
  from split have ab: "new = a @ c # b" by (simp add: new_def)
  have fired: "new = front @ post"
  proof (cases "isDefault p0 \<or> \<not> list_ex (\<lambda>sp. isEqual e (location sp) (location p)) (storedProfiles s)")
    case True
    with new ab show ?thesis by simp
  next
    case False
    with new have "new = WillRemoveProfile p # map (\<lambda>j. Join (pid j)) js
                           @ map (\<lambda>j. Join (pid j)) later @ settledEffects js @ post"
      by presburger
    then show ?thesis by (simp add: front_def)
  qed
  have front: "\<forall>x\<in>set front. \<not> commits x"
    using settledEffects_plain [of js] by (auto simp: front_def)
  from commit_after_fired [OF fired front ab c]
  have ne: "post \<noteq> []" and sub: "set front \<subseteq> set a" by simp_all
  from ne have ret: "Promises_settled js = Returns ()" by (simp add: post_def split: if_splits)
  then have f: "\<forall>j\<in>set js. fate j = Fulfilled" by (rule Promises_settled_fates)
  from sub have j: "\<forall>j\<in>set js. Join (pid j) \<in> set a" by (auto simp: front_def)
  from sub have st: "\<forall>j\<in>set js. Settled (pid j) \<in> set a"
    by (auto simp: front_def Promises_settled_Returns [OF ret])
  from f j st show ?thesis unfolding js_def by blast
qed

text \<open>
  C8 (as amended). In \<^verbatim>\<open>createProfile\<close> and in \<^verbatim>\<open>removeProfile\<close>, whenever the
  entries the operation adds to the trace are \<open>a @ c # b\<close> with \<open>c\<close> a commit (a write
  to the state store or a deletion), every promise passed to \<^verbatim>\<open>join\<close> while the event
  was delivered, that is, before \<^verbatim>\<open>fire\<close> returned, is fulfilled and has its \<open>Join\<close> and
  its \<open>Settled\<close> entry in \<open>a\<close>, before the commit.
\<close>

theorem joiners_settled_before_commit:
  assumes p: "p = reviveProfile e p0 (scheme (profilesHome e))"
    and new: "drop (length (trace s)) (trace (snd (createProfile e s p0 w))) = a @ c # b
                \<and> js = fire (onWillCreateProfile e) p
              \<or> drop (length (trace s)) (trace (snd (removeProfile e s p0))) = a @ c # b
                \<and> js = fire (onWillRemoveProfile e) p"
    and c: "commits c"
  shows "\<forall>j\<in>set js. fate j = Fulfilled \<and> Join (pid j) \<in> set a \<and> Settled (pid j) \<in> set a"
  using new
proof
  assume h: "drop (length (trace s)) (trace (snd (createProfile e s p0 w))) = a @ c # b
              \<and> js = fire (onWillCreateProfile e) p"
  with createProfile_commit [of s e p0 w a c b p] c p show ?thesis by blast
next
  assume h: "drop (length (trace s)) (trace (snd (removeProfile e s p0))) = a @ c # b
              \<and> js = fire (onWillRemoveProfile e) p"
  with removeProfile_commit [of s e p0 a c b p] c p show ?thesis by blast
qed

lemma take_prefix: "t = a @ x \<Longrightarrow> take (length a) t = a"
  by simp

lemma createProfile_trace_prefix:
  "take (length (trace s)) (trace (snd (createProfile e s p0 w))) = trace s"
  by (rule take_prefix [OF createProfile_trace])

lemma removeProfile_trace_prefix:
  "take (length (trace s)) (trace (snd (removeProfile e s p0))) = trace s"
  by (rule take_prefix [OF removeProfile_trace])

theorem joiners_settled_before_commit_witness:
  "trace (snd (createProfile lateEnv emptyService homeProfile (Some folderA))) ! 5
     = SetItem ''userDataProfiles''
   \<and> fire (onWillCreateProfile lateEnv) homeProfile = [Promise 1 Fulfilled]
   \<and> Join 1 \<in> set (take 5 (trace (snd (createProfile lateEnv emptyService homeProfile (Some folderA)))))
   \<and> Settled 1 \<in> set (take 5 (trace (snd (createProfile lateEnv emptyService homeProfile (Some folderA)))))
   \<and> trace (snd (removeProfile lateEnv workService workProfile)) ! 4
     = Del \<lparr>scheme = ''file'', path = ''/user/profiles''\<rparr> True
   \<and> fire (onWillRemoveProfile lateEnv) workProfile = [Promise 3 Fulfilled]
   \<and> Join 3 \<in> set (take 4 (trace (snd (removeProfile lateEnv workService workProfile))))
   \<and> Settled 3 \<in> set (take 4 (trace (snd (removeProfile lateEnv workService workProfile))))"
proof -
  define t where "t = trace (snd (createProfile lateEnv emptyService homeProfile (Some folderA)))"
  define r where "r = trace (snd (removeProfile lateEnv workService workProfile))"
  have t: "t = [CreateFolder \<lparr>scheme = ''file'', path = ''/user/profiles''\<rparr>,
                WillCreateProfile homeProfile, Join 1, Join 7, Settled 1,
                SetItem ''userDataProfiles'',
                DidChangeProfiles [defaultProfile exampleEnv, homeProfile],
                SetItem ''workspaceAndProfileInfo'']"
    unfolding t_def by (simp add: lateEnv_def example_defs service_defs)
  have r: "r = [WillRemoveProfile workProfile, Join 3, Join 8, Settled 3,
                Del \<lparr>scheme = ''file'', path = ''/user/profiles''\<rparr> True,
                SetItem ''workspaceAndProfileInfo'', SetItem ''userDataProfiles'',
                DidChangeProfiles [defaultProfile exampleEnv]]"
    unfolding r_def by (simp add: lateEnv_def example_defs service_defs)
  have ph: "homeProfile = reviveProfile lateEnv homeProfile (scheme (profilesHome lateEnv))"
    and pw: "workProfile = reviveProfile lateEnv workProfile (scheme (profilesHome lateEnv))"
    by (simp_all add: lateEnv_def example_defs)
  have jc: "fire (onWillCreateProfile lateEnv) homeProfile = [Promise 1 Fulfilled]"
    and jr: "fire (onWillRemoveProfile lateEnv) workProfile = [Promise 3 Fulfilled]"
    by (simp_all add: lateEnv_def exampleEnv_def fire_def joinCalls_def map_filter_simps)
  have newc: "drop (length (trace emptyService)) t = take 5 t @ (t ! 5) # drop 6 t
               \<and> [Promise 1 Fulfilled] = fire (onWillCreateProfile lateEnv) homeProfile"
    unfolding jc by (simp add: t emptyService_def)
  have newr: "drop (length (trace workService)) r = take 4 r @ (r ! 4) # drop 5 r
               \<and> [Promise 3 Fulfilled] = fire (onWillRemoveProfile lateEnv) workProfile"
    unfolding jr by (simp add: r workService_def)
  have cc: "commits (t ! 5)" by (simp add: t)
  have cr: "commits (r ! 4)" by (simp add: r)
  note create = joiners_settled_before_commit [OF ph disjI1 [OF newc [unfolded t_def]] cc [unfolded t_def]]
  note remove = joiners_settled_before_commit [OF pw disjI2 [OF newr [unfolded r_def]] cr [unfolded r_def]]
  from create remove jc jr show ?thesis
    unfolding t_def [symmetric] r_def [symmetric] by (simp add: t r)
qed

text \<open>
  C8 as stated fails for a promise passed to \<^verbatim>\<open>join\<close> after the event has been
  delivered: the listeners of \<open>lateEnv\<close> join promise 7 (promise 8 on removal) while
  the operation awaits, it never settles, and the operation still writes the stored
  profile list (deletes the profiles home).
\<close>

theorem late_join_not_awaited_counterexample:
  "createProfile lateEnv emptyService homeProfile None
     = (Returns (Some homeProfile),
        snd (createProfile lateEnv emptyService homeProfile None))
   \<and> trace (snd (createProfile lateEnv emptyService homeProfile None))
     = [CreateFolder \<lparr>scheme = ''file'', path = ''/user/profiles''\<rparr>,
        WillCreateProfile homeProfile, Join 1, Join 7, Settled 1,
        SetItem ''userDataProfiles'',
        DidChangeProfiles [defaultProfile exampleEnv, homeProfile]]
   \<and> joinCalls (onWillCreateProfile lateEnv) homeProfile
     = [OnDelivery (Promise 1 Fulfilled), Later (Promise 7 Unsettled)]
   \<and> trace (snd (removeProfile lateEnv workService workProfile))
     = [WillRemoveProfile workProfile, Join 3, Join 8, Settled 3,
        Del \<lparr>scheme = ''file'', path = ''/user/profiles''\<rparr> True,
        SetItem ''workspaceAndProfileInfo'', SetItem ''userDataProfiles'',
        DidChangeProfiles [defaultProfile exampleEnv]]
   \<and> joinCalls (onWillRemoveProfile lateEnv) workProfile
     = [OnDelivery (Promise 3 Fulfilled), Later (Promise 8 Unsettled)]"
  by (simp add: lateEnv_def example_defs service_defs)

subsection \<open>\<^verbatim>\<open>getProfile\<close>\<close>

lemma foldl_workspaces_None:
  assumes "m k = None"
    and "\<forall>info\<in>set infos. workspace info = k \<longrightarrow> find (P info) ps = None"
  shows "foldl (\<lambda>m info. case find (P info) ps of Some p \<Rightarrow> m(workspace info \<mapsto> p) | None \<Rightarrow> m)
           m infos k = None"
  using assms
proof (induction infos arbitrary: m)
  case Nil
  then show ?case by simp
next
  case (Cons i infos)
  show ?case
  proof (cases "find (P i) ps")
    case None
    with Cons show ?thesis by simp
  next
    case (Some q)
    with Cons.prems have "workspace i \<noteq> k" by auto
    with Cons Some show ?thesis by simp
  qed
qed

lemma foldl_workspaces_member:
  assumes "\<forall>q. m k = Some q \<longrightarrow> q \<in> set ps"
  shows "\<forall>q. foldl (\<lambda>m info. case find (P info) ps of Some p \<Rightarrow> m(workspace info \<mapsto> p) | None \<Rightarrow> m)
           m infos k = Some q \<longrightarrow> q \<in> set ps"
  using assms
proof (induction infos arbitrary: m)
  case Nil
  then show ?case by simp
next
  case (Cons i infos)
  show ?case
  proof (cases "find (P i) ps")
    case None
    with Cons show ?thesis by simp
  next
    case (Some r)
    then have "r \<in> set ps" by (auto simp: find_Some_iff)
    with Cons.prems have "\<forall>q. (m(workspace i \<mapsto> r)) k = Some q \<longrightarrow> q \<in> set ps" by simp
    then have "\<forall>q. foldl (\<lambda>m info. case find (P info) ps of Some p \<Rightarrow> m(workspace info \<mapsto> p) | None \<Rightarrow> m)
           (m(workspace i \<mapsto> r)) infos k = Some q \<longrightarrow> q \<in> set ps"
      by (rule Cons.IH)
    with Some show ?thesis by simp
  qed
qed

text \<open>
  C9. With a cache that is empty or up to date, \<^verbatim>\<open>getProfile\<close> always returns a
  profile of the list \<^verbatim>\<open>profiles\<close> (never \<^verbatim>\<open>undefined\<close>), and it returns the default
  profile when every stored association of the workspace (there may be none) names
  a location that no profile of the list has.
\<close>

theorem getProfile_falls_back_to_default:
  assumes ok: "cache_ok e s"
    and ps: "ps = fst (get_profiles e s)"
  shows "fst (getProfile e s w) \<in> set ps
         \<and> ((\<forall>info\<in>set (storedWorskpaceInfos s). workspace info = getWorkspace w \<longrightarrow>
                \<not> list_ex (\<lambda>q. isEqual e (location q) (profile info)) ps)
              \<longrightarrow> fst (getProfile e s w) = defaultProfile e)"
proof -
  let ?step = "\<lambda>m info. case find (\<lambda>p. isEqual e (location p) (profile info)) ps of
                  Some p \<Rightarrow> m(workspace info \<mapsto> p) | None \<Rightarrow> m"
  let ?ws = "foldl ?step Map.empty (storedWorskpaceInfos s)"
  from ok ps have ps': "ps = profiles (computeProfilesObject e s)"
    by (simp add: get_profiles_cache_ok)
  then have hd: "defaultProfile e \<in> set ps"
    by (simp add: computeProfilesObject_def Let_def)
  have ws: "workspaces (computeProfilesObject e s) = ?ws"
    unfolding ps' by (simp add: computeProfilesObject_def Let_def)
  have res: "fst (getProfile e s w)
               = (case ?ws (getWorkspace w) of Some p \<Rightarrow> p | None \<Rightarrow> defaultProfile e)"
    using ok by (simp add: getProfile_def profilesObject_cache_ok ws)
  have mem: "fst (getProfile e s w) \<in> set ps"
  proof (cases "?ws (getWorkspace w)")
    case None
    with res hd show ?thesis by simp
  next
    case (Some q)
    have "\<forall>q. ?ws (getWorkspace w) = Some q \<longrightarrow> q \<in> set ps"
      by (rule foldl_workspaces_member [where P = "\<lambda>info p. isEqual e (location p) (profile info)"]) simp
    with Some have "q \<in> set ps" by blast
    with res Some show ?thesis by simp
  qed
  have dflt: "fst (getProfile e s w) = defaultProfile e"
    if h: "\<forall>info\<in>set (storedWorskpaceInfos s). workspace info = getWorkspace w \<longrightarrow>
                \<not> list_ex (\<lambda>q. isEqual e (location q) (profile info)) ps"
  proof -
    from h have "\<forall>info\<in>set (storedWorskpaceInfos s). workspace info = getWorkspace w \<longrightarrow>
                   find (\<lambda>p. isEqual e (location p) (profile info)) ps = None"
      by (auto simp: find_None_iff list_ex_iff)
    then have "?ws (getWorkspace w) = None"
      by (intro foldl_workspaces_None [where P = "\<lambda>info p. isEqual e (location p) (profile info)"]) simp_all
    with res show ?thesis by simp
  qed
  from mem dflt show ?thesis by blast
qed

theorem getProfile_falls_back_to_default_witness:
  "fst (getProfile exampleEnv workService folderB) = defaultProfile exampleEnv
   \<and> fst (getProfile exampleEnv staleService folderA) = defaultProfile exampleEnv
   \<and> fst (getProfile exampleEnv workService folderA) = workProfile"
proof -
  have ok1: "cache_ok exampleEnv workService" by (simp add: cache_ok_def workService_def)
  have ok2: "cache_ok exampleEnv staleService" by (simp add: cache_ok_def staleService_def)
  have a: "\<forall>info\<in>set (storedWorskpaceInfos workService). workspace info = getWorkspace folderB \<longrightarrow>
             \<not> list_ex (\<lambda>q. isEqual exampleEnv (location q) (profile info))
                  (fst (get_profiles exampleEnv workService))"
    by (simp add: storedWorskpaceInfos_def workService_def folderB_def)
  have b: "\<forall>info\<in>set (storedWorskpaceInfos staleService). workspace info = getWorkspace folderA \<longrightarrow>
             \<not> list_ex (\<lambda>q. isEqual exampleEnv (location q) (profile info))
                  (fst (get_profiles exampleEnv staleService))"
    by (simp add: example_defs service_defs)
  have c: "fst (getProfile exampleEnv workService folderA) = workProfile"
    by (simp add: example_defs service_defs)
  from getProfile_falls_back_to_default [OF ok1 refl, of folderB]
       getProfile_falls_back_to_default [OF ok2 refl, of folderA] a b c
  show ?thesis by blast
qed

subsection \<open>The default profile is never associated\<close>

lemma noDefaultAssociation_cong:
  "storedWorskpaceInfos s' = storedWorskpaceInfos s
     \<Longrightarrow> noDefaultAssociation e s' = noDefaultAssociation e s"
  by (simp add: noDefaultAssociation_def)

lemma noDefaultAssociation_setProfileForWorkspace:
  assumes inv: "noDefaultAssociation e s"
    and p: "p = reviveProfile e p0 (scheme (profilesHome e))"
    and wl: "isDefault p \<or> \<not> isEqual e (location p) (location (defaultProfile e))"
  shows "noDefaultAssociation e (snd (setProfileForWorkspace e s p0 w))"
  using assms
  by (auto simp: noDefaultAssociation_def setProfileForWorkspace_infos Let_def list_all_iff)

lemma createProfile_infos:
  assumes "pp = reviveProfile e (reviveProfile e p0 (scheme (profilesHome e))) (scheme (profilesHome e))"
  shows "case wo of
           None \<Rightarrow> storedWorskpaceInfos (snd (createProfile e s p0 wo)) = storedWorskpaceInfos s
         | Some w \<Rightarrow>
             storedWorskpaceInfos (snd (createProfile e s p0 wo)) = storedWorskpaceInfos s
             \<or> storedWorskpaceInfos (snd (createProfile e s p0 wo))
                 = filter (\<lambda>info. \<not> isEqual e (workspace info) (getWorkspace w))
                     (storedWorskpaceInfos s)
                   @ (if isDefault pp then []
                      else [\<lparr>workspace = getWorkspace w, profile = location pp\<rparr>])"
  unfolding assms
  by (simp add: createProfile_def Let_def split_beta setProfileForWorkspace_infos
      split: sum.splits outcome.splits option.splits)

lemma removeProfile_infos:
  "set (storedWorskpaceInfos (snd (removeProfile e s p0))) \<subseteq> set (storedWorskpaceInfos s)"
  by (auto simp: removeProfile_def Let_def split_beta get_profiles_def
      split: sum.splits outcome.splits option.splits if_splits)

text \<open>
  C10 (as amended). \<^verbatim>\<open>setProfileForWorkspace\<close> drops the stored associations of the
  workspace and stores a new one only for a profile that is not marked as the default
  one. The guard is on the mark, not on the location: when no stored association
  names the default profile's location before, none does after
  \<^verbatim>\<open>setProfileForWorkspace\<close> exactly when the profile is marked as default or is not
  located where the default profile is; none does after \<^verbatim>\<open>createProfile\<close> when that
  holds of the profile it hands on; and none does after \<^verbatim>\<open>removeProfile\<close>,
  \<^verbatim>\<open>getProfile\<close> and \<^verbatim>\<open>getAllProfiles\<close>. (\<^verbatim>\<open>createProfile\<close> revives the profile and
  hands the revived one to \<^verbatim>\<open>setProfileForWorkspace\<close>, which revives it again.)
\<close>

theorem default_profile_never_associated:
  assumes inv: "noDefaultAssociation e s"
    and p: "p = reviveProfile e p0 (scheme (profilesHome e))"
    and pp: "pp = reviveProfile e p (scheme (profilesHome e))"
  shows "storedWorskpaceInfos (snd (setProfileForWorkspace e s p0 w))
           = (if isDefault p
              then filter (\<lambda>info. \<not> isEqual e (workspace info) (getWorkspace w))
                     (storedWorskpaceInfos s)
              else filter (\<lambda>info. \<not> isEqual e (workspace info) (getWorkspace w))
                     (storedWorskpaceInfos s)
                   @ [\<lparr>workspace = getWorkspace w, profile = location p\<rparr>])
         \<and> (noDefaultAssociation e (snd (setProfileForWorkspace e s p0 w))
              \<longleftrightarrow> isDefault p \<or> \<not> isEqual e (location p) (location (defaultProfile e)))
         \<and> (isDefault pp \<or> \<not> isEqual e (location pp) (location (defaultProfile e))
              \<longrightarrow> noDefaultAssociation e (snd (createProfile e s p0 wo)))
         \<and> noDefaultAssociation e (snd (removeProfile e s p0))
         \<and> noDefaultAssociation e (snd (getProfile e s w))
         \<and> noDefaultAssociation e (snd (getAllProfiles e s))"
proof -
  have a: "storedWorskpaceInfos (snd (setProfileForWorkspace e s p0 w))
           = (if isDefault p
              then filter (\<lambda>info. \<not> isEqual e (workspace info) (getWorkspace w))
                     (storedWorskpaceInfos s)
              else filter (\<lambda>info. \<not> isEqual e (workspace info) (getWorkspace w))
                     (storedWorskpaceInfos s)
                   @ [\<lparr>workspace = getWorkspace w, profile = location p\<rparr>])"
    by (simp add: setProfileForWorkspace_infos Let_def p)
  have b: "noDefaultAssociation e (snd (setProfileForWorkspace e s p0 w))
             \<longleftrightarrow> isDefault p \<or> \<not> isEqual e (location p) (location (defaultProfile e))"
  proof
    assume "noDefaultAssociation e (snd (setProfileForWorkspace e s p0 w))"
    then show "isDefault p \<or> \<not> isEqual e (location p) (location (defaultProfile e))"
      unfolding noDefaultAssociation_def a by (simp split: if_splits)
  next
    assume "isDefault p \<or> \<not> isEqual e (location p) (location (defaultProfile e))"
    with inv p show "noDefaultAssociation e (snd (setProfileForWorkspace e s p0 w))"
      by (rule noDefaultAssociation_setProfileForWorkspace)
  qed
  have c: "noDefaultAssociation e (snd (createProfile e s p0 wo))"
    if "isDefault pp \<or> \<not> isEqual e (location pp) (location (defaultProfile e))"
    using createProfile_infos [OF pp [unfolded p], of s wo] inv that
    by (auto simp: noDefaultAssociation_def list_all_iff split: option.splits if_splits)
  have d: "noDefaultAssociation e (snd (removeProfile e s p0))"
    using inv removeProfile_infos [of e s p0]
    by (auto simp: noDefaultAssociation_def list_all_iff)
  have f: "noDefaultAssociation e (snd (getProfile e s w))"
    using inv by (simp add: noDefaultAssociation_def getProfile_def split_beta)
  have g: "noDefaultAssociation e (snd (getAllProfiles e s))"
    using inv by (simp add: noDefaultAssociation_def getAllProfiles_def get_profiles_def split_beta)
  from a b c d f g show ?thesis by blast
qed

lemma cache_ok_preserved:
  assumes "cache_ok e s"
  shows "cache_ok e (snd (getProfile e s w))"
    and "cache_ok e (snd (getAllProfiles e s))"
    and "cache_ok e (snd (setProfileForWorkspace e s p0 w))"
    and "cache_ok e (snd (createProfile e s p0 wo))"
    and "cache_ok e (snd (removeProfile e s p0))"
proof -
  show "cache_ok e (snd (getProfile e s w))"
    using assms by (simp add: getProfile_def split_beta)
  show "cache_ok e (snd (getAllProfiles e s))"
    using assms by (simp add: getAllProfiles_def get_profiles_def split_beta)
  show "cache_ok e (snd (setProfileForWorkspace e s p0 w))"
    by (rule setProfileForWorkspace_frame)
  show "cache_ok e (snd (createProfile e s p0 wo))"
    using assms
    by (simp add: createProfile_def Let_def split_beta setProfileForWorkspace_frame
        split: sum.splits outcome.splits option.splits)
  show "cache_ok e (snd (removeProfile e s p0))"
    using assms
    by (simp add: removeProfile_def Let_def split_beta get_profiles_def
        split: sum.splits outcome.splits option.splits)
qed

theorem default_profile_never_associated_witness:
  "noDefaultAssociation exampleEnv workService
   \<and> storedWorskpaceInfos (snd (setProfileForWorkspace exampleEnv workService
        (defaultProfile exampleEnv) folderA)) = []
   \<and> noDefaultAssociation exampleEnv (snd (setProfileForWorkspace exampleEnv workService
        (defaultProfile exampleEnv) folderA))
   \<and> noDefaultAssociation exampleEnv (snd (setProfileForWorkspace exampleEnv workService homeProfile folderA))
   \<and> noDefaultAssociation exampleEnv (snd (createProfile exampleEnv workService homeProfile (Some folderA)))
   \<and> noDefaultAssociation exampleEnv (snd (removeProfile exampleEnv workService homeProfile))"
proof -
  let ?d = "defaultProfile exampleEnv"
  have inv: "noDefaultAssociation exampleEnv workService"
    by (simp add: noDefaultAssociation_def example_defs storedWorskpaceInfos_def)
  have pd: "?d = reviveProfile exampleEnv ?d (scheme (profilesHome exampleEnv))"
    by (simp add: example_defs)
  have ph: "homeProfile = reviveProfile exampleEnv homeProfile (scheme (profilesHome exampleEnv))"
    by (simp add: example_defs)
  have wh: "isDefault homeProfile \<or> \<not> isEqual exampleEnv (location homeProfile) (location ?d)"
    by (simp add: example_defs)
  note dflt = default_profile_never_associated [OF inv pd pd, of folderA None]
  note home = default_profile_never_associated [OF inv ph ph, of folderA "Some folderA"]
  have kept: "filter (\<lambda>info. \<not> isEqual exampleEnv (workspace info) (getWorkspace folderA))
                (storedWorskpaceInfos workService) = []"
    by (simp add: example_defs storedWorskpaceInfos_def)
  have isd: "isDefault ?d" by (simp add: example_defs)
  from dflt home inv wh show ?thesis by (simp add: kept isd)
qed

text \<open>
  C10 as stated fails for a profile that is located where the default profile is and
  is not marked as the default one: \<^verbatim>\<open>setProfileForWorkspace\<close> and \<^verbatim>\<open>createProfile\<close>
  store an association that names the default profile's location.
\<close>

theorem default_location_associated_counterexample:
  "noDefaultAssociation exampleEnv emptyService
   \<and> location shadowProfile = location (defaultProfile exampleEnv)
   \<and> storedWorskpaceInfos (snd (setProfileForWorkspace exampleEnv emptyService shadowProfile folderA))
       = [\<lparr>workspace = \<lparr>scheme = ''file'', path = ''/src/a''\<rparr>,
           profile = location (defaultProfile exampleEnv)\<rparr>]
   \<and> \<not> noDefaultAssociation exampleEnv
         (snd (setProfileForWorkspace exampleEnv emptyService shadowProfile folderA))
   \<and> \<not> noDefaultAssociation exampleEnv
         (snd (createProfile exampleEnv emptyService shadowProfile (Some folderA)))"
  by (simp add: example_defs service_defs shadowProfile_def noDefaultAssociation_def)

section \<open>Properties of the table of contents\<close>

lemmas md_defs = buildToc_def lineAt_def lineCount_def newEntry_def getHeaderText_def
  getHeaderLevel_def headerPrefixLength_def headerSuffixLength_def trim_def isSpace_def isHash_def
  sampleSlugify_def headingToken_def inlineToken_def
  exampleDoc_def exampleTokens_def repeatedDoc_def repeatedTokens_def accentDoc_def accentTokens_def
  slugsOf_def Let_def digit_def decimal.simps

subsection \<open>The section of an entry\<close>

lemma sectionEnd_Some:
  "sectionEnd entry later = Some v \<longleftrightarrow>
     (\<exists>j<length later. level (later ! j) \<le> level entry
        \<and> (\<forall>m<j. level entry < level (later ! m)) \<and> v = line (later ! j) - 1)"
proof (induction later)
  case Nil
  then show ?case by simp
next
  case (Cons x xs)
  show ?case
  proof (cases "level x \<le> level entry")
    case True
    have "(\<exists>j<length (x # xs). level ((x # xs) ! j) \<le> level entry
        \<and> (\<forall>m<j. level entry < level ((x # xs) ! m)) \<and> v = line ((x # xs) ! j) - 1)
        \<longleftrightarrow> v = line x - 1"
    proof
      assume "\<exists>j<length (x # xs). level ((x # xs) ! j) \<le> level entry
        \<and> (\<forall>m<j. level entry < level ((x # xs) ! m)) \<and> v = line ((x # xs) ! j) - 1"
      then obtain j where j: "\<forall>m<j. level entry < level ((x # xs) ! m)"
        and v: "v = line ((x # xs) ! j) - 1" by blast
      from j True have "j = 0" by (cases j) force+
      with v show "v = line x - 1" by simp
    next
      assume "v = line x - 1"
      with True show "\<exists>j<length (x # xs). level ((x # xs) ! j) \<le> level entry
        \<and> (\<forall>m<j. level entry < level ((x # xs) ! m)) \<and> v = line ((x # xs) ! j) - 1"
        by (intro exI [where x = 0]) simp
    qed
    with True show ?thesis by auto
  next
    case False
    have "(\<exists>j<length (x # xs). level ((x # xs) ! j) \<le> level entry
        \<and> (\<forall>m<j. level entry < level ((x # xs) ! m)) \<and> v = line ((x # xs) ! j) - 1)
        \<longleftrightarrow> (\<exists>j<length xs. level (xs ! j) \<le> level entry
        \<and> (\<forall>m<j. level entry < level (xs ! m)) \<and> v = line (xs ! j) - 1)"
    proof
      assume "\<exists>j<length (x # xs). level ((x # xs) ! j) \<le> level entry
        \<and> (\<forall>m<j. level entry < level ((x # xs) ! m)) \<and> v = line ((x # xs) ! j) - 1"
      then obtain j where j: "j < length (x # xs)" "level ((x # xs) ! j) \<le> level entry"
        "\<forall>m<j. level entry < level ((x # xs) ! m)" "v = line ((x # xs) ! j) - 1" by blast
      from j(2) False obtain i where i: "j = Suc i" by (cases j) auto
      from j(3) i have "\<forall>m<i. level entry < level (xs ! m)" by auto
      with j i show "\<exists>j<length xs. level (xs ! j) \<le> level entry
        \<and> (\<forall>m<j. level entry < level (xs ! m)) \<and> v = line (xs ! j) - 1"
        by (intro exI [where x = i]) simp
    next
      assume "\<exists>j<length xs. level (xs ! j) \<le> level entry
        \<and> (\<forall>m<j. level entry < level (xs ! m)) \<and> v = line (xs ! j) - 1"
      then obtain i where i: "i < length xs" "level (xs ! i) \<le> level entry"
        "\<forall>m<i. level entry < level (xs ! m)" "v = line (xs ! i) - 1" by blast
      have "\<forall>m<Suc i. level entry < level ((x # xs) ! m)"
      proof (intro allI impI)
        fix m assume "m < Suc i"
        with i(3) False show "level entry < level ((x # xs) ! m)" by (cases m) auto
      qed
      with i show "\<exists>j<length (x # xs). level ((x # xs) ! j) \<le> level entry
        \<and> (\<forall>m<j. level entry < level ((x # xs) ! m)) \<and> v = line ((x # xs) ! j) - 1"
        by (intro exI [where x = "Suc i"]) simp
    qed
    with False Cons.IH show ?thesis by simp
  qed
qed

lemma sectionEnd_None:
  "sectionEnd entry later = None \<longleftrightarrow> (\<forall>j<length later. level entry < level (later ! j))"
proof (induction later)
  case Nil
  then show ?case by simp
next
  case (Cons x xs)
  show ?case
  proof (cases "level x \<le> level entry")
    case True
    then have "\<not> (\<forall>j<length (x # xs). level entry < level ((x # xs) ! j))"
      by (auto intro!: exI [where x = 0])
    with True show ?thesis by simp
  next
    case False
    have "(\<forall>j<length (x # xs). level entry < level ((x # xs) ! j))
            \<longleftrightarrow> (\<forall>j<length xs. level entry < level (xs ! j))"
      using False by (auto simp: nth_Cons split: nat.splits)
    with False Cons.IH show ?thesis by simp
  qed
qed

lemma sections_nth:
  assumes "sections doc toc = Inr r"
  shows "length r = length toc \<and>
         (\<forall>k<length toc.
            0 \<le> endLineOf doc (toc ! k) (drop (Suc k) toc)
            \<and> endLineOf doc (toc ! k) (drop (Suc k) toc) < lineCount doc
            \<and> r ! k = (toc ! k)\<lparr>sectionLocation := Location (doc_uri doc)
                 (Range (start (range' (sectionLocation (toc ! k))))
                    (Position (endLineOf doc (toc ! k) (drop (Suc k) toc))
                       (int (length (lines doc ! nat (endLineOf doc (toc ! k) (drop (Suc k) toc)))))))\<rparr>)"
  using assms
proof (induction toc arbitrary: r)
  case Nil
  then show ?case by simp
next
  case (Cons entry later)
  let ?e = "endLineOf doc entry later"
  from Cons.prems obtain endText populated where
    la: "lineAt doc ?e = Inr endText" and rest: "sections doc later = Inr populated"
    and r: "r = entry\<lparr>sectionLocation := Location (doc_uri doc)
                 (Range (start (range' (sectionLocation entry)))
                        (Position ?e (int (length endText))))\<rparr> # populated"
    by (auto simp: endLineOf_def Let_def split: sum.splits)
  from la have e: "0 \<le> ?e" "?e < lineCount doc" "endText = lines doc ! nat ?e"
    by (auto simp: lineAt_def split: if_splits)
  note IH = Cons.IH [OF rest]
  have len: "length r = length (entry # later)" using r IH by simp
  have each: "0 \<le> endLineOf doc ((entry # later) ! k) (drop (Suc k) (entry # later))
            \<and> endLineOf doc ((entry # later) ! k) (drop (Suc k) (entry # later)) < lineCount doc
            \<and> r ! k = ((entry # later) ! k)\<lparr>sectionLocation := Location (doc_uri doc)
                 (Range (start (range' (sectionLocation ((entry # later) ! k))))
                    (Position (endLineOf doc ((entry # later) ! k) (drop (Suc k) (entry # later)))
                       (int (length (lines doc ! nat (endLineOf doc ((entry # later) ! k)
                           (drop (Suc k) (entry # later))))))))\<rparr>"
    if k: "k < length (entry # later)" for k
  proof (cases k)
    case 0
    with e r show ?thesis by simp
  next
    case (Suc i)
    with k have "i < length later" by simp
    with IH Suc r show ?thesis by simp
  qed
  from len each show ?case by blast
qed

lemma headings_start:
  assumes "headings fromHeading doc tokens seen toc = Inr r"
    and "\<forall>x\<in>set toc. start (range' (sectionLocation x)) = Position (line x) 0"
  shows "\<forall>x\<in>set r. start (range' (sectionLocation x)) = Position (line x) 0"
  using assms
proof (induction tokens arbitrary: seen toc)
  case Nil
  then show ?case by simp
next
  case (Cons heading rest)
  show ?case
  proof (cases "map' heading")
    case None
    with Cons show ?thesis by simp
  next
    case (Some m)
    obtain lineNumber lineEnd where m: "m = (lineNumber, lineEnd)" by (cases m)
    from Cons.prems(1) Some m obtain lineText where
      la: "lineAt doc lineNumber = Inr lineText"
      by (auto split: sum.splits)
    show ?thesis
    proof (cases "seen (fromHeading lineText)")
      case None
      with Cons.prems(1) Some m la
      have "headings fromHeading doc rest (seen(fromHeading lineText \<mapsto> 0))
              (toc @ [newEntry doc heading lineNumber lineText (fromHeading lineText)]) = Inr r"
        by (simp add: Let_def)
      then show ?thesis
        by (rule Cons.IH) (use Cons.prems(2) in \<open>auto simp: newEntry_def Let_def\<close>)
    next
      case (Some count)
      with Cons.prems(1) \<open>map' heading = Some m\<close> m la
      have "headings fromHeading doc rest (seen(fromHeading lineText \<mapsto> count + 1))
              (toc @ [newEntry doc heading lineNumber lineText
                 (fromHeading (fromHeading lineText @ ''-'' @ decimal (count + 1)))]) = Inr r"
        by (simp add: Let_def)
      then show ?thesis
        by (rule Cons.IH) (use Cons.prems(2) in \<open>auto simp: newEntry_def Let_def\<close>)
    qed
  qed
qed

text \<open>
  C1. Whenever \<^verbatim>\<open>buildToc\<close> returns, the section range of every entry starts at
  column 0 of the entry's heading line; it ends at the end of the line before the
  first later entry whose level is less than or equal to its own; and at the end of
  the last line of the document when no later entry has such a level. The end line
  is a line of the document.
\<close>

theorem sectionLocation_ends_before_next_heading:
  assumes toc: "buildToc fromHeading doc tokens = Inr toc"
    and k: "k < length toc"
  shows "start (range' (sectionLocation (toc ! k))) = Position (line (toc ! k)) 0
    \<and> (\<forall>j. k < j \<and> j < length toc \<and> level (toc ! j) \<le> level (toc ! k)
            \<and> (\<forall>m. k < m \<and> m < j \<longrightarrow> level (toc ! k) < level (toc ! m))
          \<longrightarrow> 0 \<le> line (toc ! j) - 1 \<and> line (toc ! j) - 1 < lineCount doc
              \<and> end' (range' (sectionLocation (toc ! k)))
                  = Position (line (toc ! j) - 1)
                      (int (length (lines doc ! nat (line (toc ! j) - 1)))))
    \<and> ((\<forall>j. k < j \<and> j < length toc \<longrightarrow> level (toc ! k) < level (toc ! j))
          \<longrightarrow> 0 \<le> lineCount doc - 1
              \<and> end' (range' (sectionLocation (toc ! k)))
                  = Position (lineCount doc - 1)
                      (int (length (lines doc ! nat (lineCount doc - 1)))))"
proof -
  from toc obtain hs where
    hs: "headings fromHeading doc (filter (\<lambda>token. type' token = ''heading_open'') tokens)
           Map.empty [] = Inr hs"
    and sec: "sections doc hs = Inr toc"
    by (auto simp: buildToc_def split: sum.splits)
  from sections_nth [OF sec] have len: "length toc = length hs"
    and nth: "\<And>i. i < length hs \<Longrightarrow>
            0 \<le> endLineOf doc (hs ! i) (drop (Suc i) hs)
            \<and> endLineOf doc (hs ! i) (drop (Suc i) hs) < lineCount doc
            \<and> toc ! i = (hs ! i)\<lparr>sectionLocation := Location (doc_uri doc)
                 (Range (start (range' (sectionLocation (hs ! i))))
                    (Position (endLineOf doc (hs ! i) (drop (Suc i) hs))
                       (int (length (lines doc ! nat (endLineOf doc (hs ! i) (drop (Suc i) hs)))))))\<rparr>"
    by simp_all
  have lev: "\<And>i. i < length hs \<Longrightarrow> level (toc ! i) = level (hs ! i)"
    and lin: "\<And>i. i < length hs \<Longrightarrow> line (toc ! i) = line (hs ! i)"
    using nth by simp_all
  from k len have kh: "k < length hs" by simp
  let ?e = "endLineOf doc (hs ! k) (drop (Suc k) hs)"
  from nth [OF kh] have e: "0 \<le> ?e" "?e < lineCount doc"
    and endk: "end' (range' (sectionLocation (toc ! k)))
                 = Position ?e (int (length (lines doc ! nat ?e)))"
    and startk: "start (range' (sectionLocation (toc ! k))) = start (range' (sectionLocation (hs ! k)))"
    by simp_all
  from headings_start [OF hs] kh
  have "start (range' (sectionLocation (hs ! k))) = Position (line (hs ! k)) 0" by simp
  with startk lin [OF kh] have one: "start (range' (sectionLocation (toc ! k))) = Position (line (toc ! k)) 0"
    by simp
  have two: "0 \<le> line (toc ! j) - 1 \<and> line (toc ! j) - 1 < lineCount doc
              \<and> end' (range' (sectionLocation (toc ! k)))
                  = Position (line (toc ! j) - 1)
                      (int (length (lines doc ! nat (line (toc ! j) - 1))))"
    if j: "k < j \<and> j < length toc \<and> level (toc ! j) \<le> level (toc ! k)
            \<and> (\<forall>m. k < m \<and> m < j \<longrightarrow> level (toc ! k) < level (toc ! m))" for j
  proof -
    let ?later = "drop (Suc k) hs"
    let ?i = "j - Suc k"
    from j len have i: "?i < length ?later" by auto
    from j len have nthi: "?later ! ?i = hs ! j" by simp
    from j len have jh: "j < length hs" by simp
    from j lev [OF jh] lev [OF kh] have le: "level (?later ! ?i) \<le> level (hs ! k)"
      by (simp add: nthi)
    have before: "\<forall>m<?i. level (hs ! k) < level (?later ! m)"
    proof (intro allI impI)
      fix m assume m: "m < ?i"
      with jh j have mh: "Suc k + m < length hs" and km: "k < Suc k + m \<and> Suc k + m < j" by auto
      from j km have "level (toc ! k) < level (toc ! (Suc k + m))" by blast
      with lev [OF mh] lev [OF kh] have "level (hs ! k) < level (hs ! (Suc k + m))" by simp
      with mh show "level (hs ! k) < level (?later ! m)" by simp
    qed
    from i le before have "sectionEnd (hs ! k) ?later = Some (line (?later ! ?i) - 1)"
      unfolding sectionEnd_Some by blast
    then have "?e = line (hs ! j) - 1" by (simp add: endLineOf_def nthi)
    with lin [OF jh] have "?e = line (toc ! j) - 1" by simp
    with e endk show ?thesis by simp
  qed
  have three: "0 \<le> lineCount doc - 1
              \<and> end' (range' (sectionLocation (toc ! k)))
                  = Position (lineCount doc - 1)
                      (int (length (lines doc ! nat (lineCount doc - 1))))"
    if all: "\<forall>j. k < j \<and> j < length toc \<longrightarrow> level (toc ! k) < level (toc ! j)"
  proof -
    have "\<forall>m<length (drop (Suc k) hs). level (hs ! k) < level (drop (Suc k) hs ! m)"
    proof (intro allI impI)
      fix m assume "m < length (drop (Suc k) hs)"
      then have m: "Suc k + m < length hs" by simp
      with all len have "level (toc ! k) < level (toc ! (Suc k + m))" by simp
      with lev [OF m] lev [OF kh] have "level (hs ! k) < level (hs ! (Suc k + m))" by simp
      with m show "level (hs ! k) < level (drop (Suc k) hs ! m)" by simp
    qed
    then have "sectionEnd (hs ! k) (drop (Suc k) hs) = None"
      unfolding sectionEnd_None .
    then have "?e = lineCount doc - 1" by (simp add: endLineOf_def)
    with e endk show ?thesis by simp
  qed
  from one two three show ?thesis by blast
qed

theorem sectionLocation_ends_before_next_heading_witness:
  "start (range' (sectionLocation (exampleToc ! 0))) = Position 0 0
   \<and> end' (range' (sectionLocation (exampleToc ! 0))) = Position 3 4
   \<and> end' (range' (sectionLocation (exampleToc ! 1))) = Position 3 4
   \<and> start (range' (sectionLocation (exampleToc ! 2))) = Position 4 0
   \<and> end' (range' (sectionLocation (exampleToc ! 2))) = Position 5 3"
proof -
  have run: "buildToc sampleSlugify exampleDoc exampleTokens = Inr exampleToc"
    unfolding exampleToc_def by (simp add: md_defs)
  have len: "length exampleToc = 3"
    unfolding exampleToc_def by (simp add: md_defs)
  have lev: "level (exampleToc ! 0) = 1" "level (exampleToc ! 1) = 2" "level (exampleToc ! 2) = 1"
    unfolding exampleToc_def by (simp_all add: md_defs)
  have lin: "line (exampleToc ! 0) = 0" "line (exampleToc ! 2) = 4"
    unfolding exampleToc_def by (simp_all add: md_defs)
  have doc: "lineCount exampleDoc = 6" "lines exampleDoc ! 3 = ''more''" "lines exampleDoc ! 5 = ''end''"
    by (simp_all add: exampleDoc_def lineCount_def)
  have k0: "0 < length exampleToc" and k1: "1 < length exampleToc" and k2: "2 < length exampleToc"
    by (simp_all add: len)
  note h0 = sectionLocation_ends_before_next_heading [OF run k0]
  note h1 = sectionLocation_ends_before_next_heading [OF run k1]
  note h2 = sectionLocation_ends_before_next_heading [OF run k2]
  have between: "\<forall>m. 0 < m \<and> m < 2 \<longrightarrow> level (exampleToc ! 0) < level (exampleToc ! m)"
  proof (intro allI impI)
    fix m :: nat assume "0 < m \<and> m < 2"
    then have "m = 1" by arith
    with lev show "level (exampleToc ! 0) < level (exampleToc ! m)" by simp
  qed
  have p0: "0 < (2::nat) \<and> 2 < length exampleToc \<and> level (exampleToc ! 2) \<le> level (exampleToc ! 0)
            \<and> (\<forall>m. 0 < m \<and> m < 2 \<longrightarrow> level (exampleToc ! 0) < level (exampleToc ! m))"
    using between lev by (simp add: len)
  have p1: "1 < (2::nat) \<and> 2 < length exampleToc \<and> level (exampleToc ! 2) \<le> level (exampleToc ! 1)
            \<and> (\<forall>m. 1 < m \<and> m < 2 \<longrightarrow> level (exampleToc ! 1) < level (exampleToc ! m))"
    using lev by (simp add: len)
  have p2: "\<forall>j. 2 < j \<and> j < length exampleToc \<longrightarrow> level (exampleToc ! 2) < level (exampleToc ! j)"
    by (simp add: len)
  from h0 p0 have e0: "end' (range' (sectionLocation (exampleToc ! 0)))
                  = Position (line (exampleToc ! 2) - 1)
                      (int (length (lines exampleDoc ! nat (line (exampleToc ! 2) - 1))))"
    by blast
  from h1 p1 have e1: "end' (range' (sectionLocation (exampleToc ! 1)))
                  = Position (line (exampleToc ! 2) - 1)
                      (int (length (lines exampleDoc ! nat (line (exampleToc ! 2) - 1))))"
    by blast
  from h2 p2 have e2: "end' (range' (sectionLocation (exampleToc ! 2)))
                  = Position (lineCount exampleDoc - 1)
                      (int (length (lines exampleDoc ! nat (lineCount exampleDoc - 1))))"
    by blast
  from h0 have s0: "start (range' (sectionLocation (exampleToc ! 0))) = Position (line (exampleToc ! 0)) 0"
    by blast
  from h2 have s2: "start (range' (sectionLocation (exampleToc ! 2))) = Position (line (exampleToc ! 2)) 0"
    by blast
  from e0 e1 e2 s0 s2 show ?thesis
    by (simp add: lin doc)
qed

subsection \<open>The slugs of repeated headings\<close>

lemma digit_inj: "a < 10 \<Longrightarrow> b < 10 \<Longrightarrow> digit a = digit b \<Longrightarrow> a = b"
proof -
  assume a: "a < 10" and b: "b < 10" and eq: "digit a = digit b"
  have d: "distinct ''0123456789''" by simp
  from a b have "a < length ''0123456789''" "b < length ''0123456789''" by simp_all
  with d eq show "a = b" unfolding digit_def by (simp only: nth_eq_iff_index_eq)
qed

lemma decimal_nonempty: "decimal n \<noteq> []"
  by (subst decimal.simps) simp

lemma decimal_small: "n < 10 \<Longrightarrow> decimal n = [digit n]"
  by (subst decimal.simps) simp

lemma decimal_big: "\<not> n < 10 \<Longrightarrow> decimal n = decimal (n div 10) @ [digit (n mod 10)]"
  by (subst decimal.simps) simp

lemma decimal_inj: "decimal a = decimal b \<Longrightarrow> a = b"
proof (induction a arbitrary: b rule: decimal.induct)
  case (1 n)
  show ?case
  proof (cases "n < 10")
    case small: True
    show ?thesis
    proof (cases "b < 10")
      case True
      with small 1 show ?thesis by (simp add: decimal_small digit_inj)
    next
      case False
      from small False "1.prems" have "[digit n] = decimal (b div 10) @ [digit (b mod 10)]"
        by (simp add: decimal_small decimal_big)
      then have "decimal (b div 10) = []" by simp
      with decimal_nonempty show ?thesis by blast
    qed
  next
    case big: False
    show ?thesis
    proof (cases "b < 10")
      case True
      from big True "1.prems" have "decimal (n div 10) @ [digit (n mod 10)] = [digit b]"
        by (simp add: decimal_small decimal_big)
      then have "decimal (n div 10) = []" by simp
      with decimal_nonempty show ?thesis by blast
    next
      case False
      from big False "1.prems"
      have "decimal (n div 10) @ [digit (n mod 10)] = decimal (b div 10) @ [digit (b mod 10)]"
        by (simp add: decimal_big)
      then have d: "decimal (n div 10) = decimal (b div 10)" and m: "digit (n mod 10) = digit (b mod 10)"
        by simp_all
      from "1.IH" [OF big d] have "n div 10 = b div 10" .
      moreover from m have "n mod 10 = b mod 10" by (intro digit_inj) simp_all
      ultimately show ?thesis by (metis div_mult_mod_eq)
    qed
  qed
qed

lemma rawSlug_newEntry:
  "lineAt doc n = Inr t \<Longrightarrow> rawSlug f doc (newEntry doc heading n t sl) = f t"
  by (auto simp: rawSlug_def newEntry_def Let_def lineAt_def split: if_splits)

lemma slug_newEntry: "slug (newEntry doc heading n t sl) = sl"
  by (simp add: newEntry_def Let_def)

lemma slugs_ok_snoc:
  assumes "slugs_ok f doc toc" and "slug e = expectedSlug f doc toc e"
  shows "slugs_ok f doc (toc @ [e])"
  unfolding slugs_ok_def
proof (intro allI impI)
  fix k assume "k < length (toc @ [e])"
  then consider "k < length toc" | "k = length toc" by fastforce
  then show "slug ((toc @ [e]) ! k) = expectedSlug f doc (take k (toc @ [e])) ((toc @ [e]) ! k)"
  proof cases
    case 1
    with assms(1) show ?thesis by (simp add: slugs_ok_def nth_append)
  next
    case 2
    with assms(2) show ?thesis by simp
  qed
qed

lemma seen_ok_step:
  assumes ok: "seen_ok f doc seen toc" and r: "rawSlug f doc e = s"
  shows "seen s = None \<Longrightarrow> collisions f doc toc e = 0 \<and> seen_ok f doc (seen(s \<mapsto> 0)) (toc @ [e])"
    and "seen s = Some c \<Longrightarrow> collisions f doc toc e = c + 1
           \<and> seen_ok f doc (seen(s \<mapsto> c + 1)) (toc @ [e])"
proof -
  from ok have at: "\<And>u. seen u = (if filter (\<lambda>e. rawSlug f doc e = u) toc = [] then None
                     else Some (length (filter (\<lambda>e. rawSlug f doc e = u) toc) - 1))"
    by (simp add: seen_ok_def)
  {
    assume n: "seen s = None"
    with at [of s] have empty: "filter (\<lambda>e. rawSlug f doc e = s) toc = []"
      by (simp split: if_splits)
    then have c: "collisions f doc toc e = 0" by (simp add: collisions_def r)
    have "seen_ok f doc (seen(s \<mapsto> 0)) (toc @ [e])"
      unfolding seen_ok_def
    proof
      fix u show "(seen(s \<mapsto> 0)) u = (if filter (\<lambda>e. rawSlug f doc e = u) (toc @ [e]) = [] then None
           else Some (length (filter (\<lambda>e. rawSlug f doc e = u) (toc @ [e])) - 1))"
        using at [of u] empty r by (cases "u = s") auto
    qed
    with c show "collisions f doc toc e = 0 \<and> seen_ok f doc (seen(s \<mapsto> 0)) (toc @ [e])" by simp
  }
  {
    assume n: "seen s = Some c"
    with at [of s] have ne: "filter (\<lambda>e. rawSlug f doc e = s) toc \<noteq> []"
      and len: "length (filter (\<lambda>e. rawSlug f doc e = s) toc) - 1 = c"
      by (simp_all split: if_splits)
    from ne have "length (filter (\<lambda>e. rawSlug f doc e = s) toc) > 0"
      by simp
    with len have l: "length (filter (\<lambda>e. rawSlug f doc e = s) toc) = c + 1" by arith
    then have c: "collisions f doc toc e = c + 1" by (simp add: collisions_def r)
    have "seen_ok f doc (seen(s \<mapsto> c + 1)) (toc @ [e])"
      unfolding seen_ok_def
    proof
      fix u show "(seen(s \<mapsto> c + 1)) u = (if filter (\<lambda>e. rawSlug f doc e = u) (toc @ [e]) = [] then None
           else Some (length (filter (\<lambda>e. rawSlug f doc e = u) (toc @ [e])) - 1))"
        using at [of u] l r by (cases "u = s") auto
    qed
    with c show "collisions f doc toc e = c + 1 \<and> seen_ok f doc (seen(s \<mapsto> c + 1)) (toc @ [e])"
      by simp
  }
qed

lemma headings_slugs:
  assumes "headings f doc tokens seen toc = Inr r"
    and "seen_ok f doc seen toc" and "slugs_ok f doc toc"
  shows "slugs_ok f doc r"
  using assms
proof (induction tokens arbitrary: seen toc)
  case Nil
  then show ?case by simp
next
  case (Cons heading rest)
  show ?case
  proof (cases "map' heading")
    case None
    with Cons show ?thesis by simp
  next
    case (Some m)
    obtain n lineEnd where m: "m = (n, lineEnd)" by (cases m)
    from Cons.prems(1) Some m obtain t where la: "lineAt doc n = Inr t"
      by (auto split: sum.splits)
    show ?thesis
    proof (cases "seen (f t)")
      case None
      let ?e = "newEntry doc heading n t (f t)"
      from Cons.prems(1) \<open>map' heading = Some m\<close> m la None
      have run: "headings f doc rest (seen(f t \<mapsto> 0)) (toc @ [?e]) = Inr r"
        by (simp add: Let_def)
      from seen_ok_step(1) [OF Cons.prems(2) rawSlug_newEntry [OF la] None]
      have c: "collisions f doc toc ?e = 0" and ok: "seen_ok f doc (seen(f t \<mapsto> 0)) (toc @ [?e])"
        by simp_all
      from c have "slug ?e = expectedSlug f doc toc ?e"
        by (simp add: expectedSlug_def slug_newEntry rawSlug_newEntry [OF la])
      with Cons.prems(3) have "slugs_ok f doc (toc @ [?e])" by (rule slugs_ok_snoc)
      with run ok show ?thesis by (rule Cons.IH)
    next
      case (Some c)
      let ?e = "newEntry doc heading n t (f (f t @ ''-'' @ decimal (c + 1)))"
      from Cons.prems(1) \<open>map' heading = Some m\<close> m la Some
      have run: "headings f doc rest (seen(f t \<mapsto> c + 1)) (toc @ [?e]) = Inr r"
        by (simp add: Let_def)
      from seen_ok_step(2) [OF Cons.prems(2) rawSlug_newEntry [OF la] Some]
      have c: "collisions f doc toc ?e = c + 1" and ok: "seen_ok f doc (seen(f t \<mapsto> c + 1)) (toc @ [?e])"
        by simp_all
      from c have "slug ?e = expectedSlug f doc toc ?e"
        by (simp add: expectedSlug_def slug_newEntry rawSlug_newEntry [OF la])
      with Cons.prems(3) have "slugs_ok f doc (toc @ [?e])" by (rule slugs_ok_snoc)
      with run ok show ?thesis by (rule Cons.IH)
    qed
  qed
qed

lemma sections_fields:
  assumes "sections doc hs = Inr toc"
  shows "map slug toc = map slug hs" and "map (rawSlug f doc) toc = map (rawSlug f doc) hs"
proof -
  from sections_nth [OF assms] have len: "length toc = length hs"
    and nth: "\<And>i. i < length hs \<Longrightarrow> slug (toc ! i) = slug (hs ! i) \<and> line (toc ! i) = line (hs ! i)"
    by simp_all
  show "map slug toc = map slug hs"
    using len nth by (simp add: list_eq_iff_nth_eq)
  show "map (rawSlug f doc) toc = map (rawSlug f doc) hs"
    using len nth by (simp add: list_eq_iff_nth_eq rawSlug_def)
qed

lemma collisions_map:
  "collisions f doc earlier entry
     = length (filter (\<lambda>s. s = rawSlug f doc entry) (map (rawSlug f doc) earlier))"
  by (simp add: collisions_def filter_map comp_def)

lemma expectedSlug_cong:
  assumes "map (rawSlug f doc) a = map (rawSlug f doc) b" and "rawSlug f doc x = rawSlug f doc y"
  shows "expectedSlug f doc a x = expectedSlug f doc b y"
  using assms by (simp add: expectedSlug_def collisions_map)

lemma buildToc_slugs_ok:
  assumes "buildToc f doc tokens = Inr toc"
  shows "slugs_ok f doc toc"
proof -
  from assms obtain hs where
    hs: "headings f doc (filter (\<lambda>token. type' token = ''heading_open'') tokens) Map.empty [] = Inr hs"
    and sec: "sections doc hs = Inr toc"
    by (auto simp: buildToc_def split: sum.splits)
  have "slugs_ok f doc hs"
    by (rule headings_slugs [OF hs]) (simp_all add: seen_ok_def slugs_ok_def)
  note fields = sections_fields(1) [OF sec] sections_fields(2) [OF sec, where f = f]
  from fields(1) have len: "length toc = length hs" by (rule map_eq_imp_length_eq)
  show ?thesis
    unfolding slugs_ok_def
  proof (intro allI impI)
    fix k assume k: "k < length toc"
    with len have kh: "k < length hs" by simp
    from fields(1) k kh have s: "slug (toc ! k) = slug (hs ! k)"
      by (metis nth_map)
    from fields(2) k kh have r: "rawSlug f doc (toc ! k) = rawSlug f doc (hs ! k)"
      by (metis nth_map)
    from fields(2) have t: "map (rawSlug f doc) (take k toc) = map (rawSlug f doc) (take k hs)"
      by (simp add: take_map [symmetric])
    from \<open>slugs_ok f doc hs\<close> kh have "slug (hs ! k) = expectedSlug f doc (take k hs) (hs ! k)"
      by (simp add: slugs_ok_def)
    with s expectedSlug_cong [OF t r] show "slug (toc ! k) = expectedSlug f doc (take k toc) (toc ! k)"
      by simp
  qed
qed

lemma collisions_mono:
  assumes "j < k" and "k < length toc" and "rawSlug f doc (toc ! j) = rawSlug f doc (toc ! k)"
  shows "collisions f doc (take j toc) (toc ! j) < collisions f doc (take k toc) (toc ! k)"
proof -
  let ?P = "\<lambda>e. rawSlug f doc e = rawSlug f doc (toc ! k)"
  from assms have jl: "j < length toc" by simp
  from assms have "take k toc = take (j + (k - j)) toc" by simp
  also have "\<dots> = take j toc @ take (k - j) (drop j toc)" by (rule take_add)
  also from jl have "drop j toc = (toc ! j) # drop (Suc j) toc"
    by (simp add: Cons_nth_drop_Suc)
  also from assms have "take (k - j) ((toc ! j) # drop (Suc j) toc)
                          = (toc ! j) # take (k - Suc j) (drop (Suc j) toc)"
    by (simp add: take_Cons')
  finally have "take k toc = take j toc @ (toc ! j) # take (k - Suc j) (drop (Suc j) toc)" .
  then have "filter ?P (take k toc)
      = filter ?P (take j toc) @ filter ?P ((toc ! j) # take (k - Suc j) (drop (Suc j) toc))"
    by simp
  with assms(3) have "length (filter ?P (take k toc)) > length (filter ?P (take j toc))"
    by simp
  with assms(3) show ?thesis by (simp add: collisions_def)
qed

subsection \<open>The slugifier on a slug with a counter\<close>

lemma digit_digits: "d < 10 \<Longrightarrow> digit d \<in> set ''0123456789''"
  unfolding digit_def by (rule nth_mem) simp

lemma decimal_digits: "c \<in> set (decimal n) \<Longrightarrow> c \<in> set ''0123456789''"
proof (induction n rule: decimal.induct)
  case (1 n)
  show ?case
  proof (cases "n < 10")
    case True
    with "1.prems" have "c = digit n" by (simp add: decimal_small)
    with True show ?thesis by (simp only: digit_digits)
  next
    case False
    with "1.prems" have "c \<in> set (decimal (n div 10)) \<or> c = digit (n mod 10)"
      by (auto simp: decimal_big)
    then show ?thesis
    proof
      assume "c \<in> set (decimal (n div 10))"
      with False show ?thesis by (rule "1.IH")
    next
      assume "c = digit (n mod 10)"
      then show ?thesis by (simp only: digit_digits [of "n mod 10"] mod_less_divisor)
    qed
  qed
qed

lemma hexDigit_url: "hexDigit k \<in> set urlChars"
proof -
  have "hexDigit k \<in> set ''0123456789ABCDEF''"
    unfolding hexDigit_def by (rule nth_mem) simp
  then show ?thesis by (auto simp: urlChars_def uriUnescaped_def)
qed

lemma encodeChar_url: "set (encodeChar c) \<subseteq> set urlChars"
proof -
  have p: "CHR ''%'' \<in> set urlChars" by (simp add: urlChars_def)
  show ?thesis
    using p hexDigit_url by (auto simp: encodeChar_def percentByte_def urlChars_def)
qed

lemma encodeURI_url: "set (encodeURI s) \<subseteq> set urlChars"
  using encodeChar_url by (auto simp: encodeURI_def)

lemma plain_facts:
  "list_all (\<lambda>c. lowerCase c = c \<and> c \<notin> set punctuators \<and> \<not> isWhiteSpace c
                  \<and> encodeChar c = [c] \<and> c \<in> set urlChars) plainChars"
  by code_simp

lemma url_facts:
  "list_all (\<lambda>c. \<not> isWhiteSpace c \<and> \<not> isWhiteSpace (lowerCase c)
                  \<and> (lowerCase c \<notin> set punctuators \<longrightarrow> lowerCase c \<in> set plainChars)) urlChars"
  by code_simp

lemma dropWhile_none: "\<forall>x\<in>set xs. \<not> P x \<Longrightarrow> dropWhile P xs = xs"
  by (cases xs) simp_all

lemma plainD:
  assumes "c \<in> set plainChars"
  shows "lowerCase c = c" "c \<notin> set punctuators" "\<not> isWhiteSpace c" "encodeChar c = [c]"
    "c \<in> set urlChars"
proof -
  have "\<forall>c\<in>set plainChars. lowerCase c = c \<and> c \<notin> set punctuators \<and> \<not> isWhiteSpace c
                  \<and> encodeChar c = [c] \<and> c \<in> set urlChars"
    using plain_facts by (simp only: list_all_iff)
  from this assms have "lowerCase c = c \<and> c \<notin> set punctuators \<and> \<not> isWhiteSpace c
                  \<and> encodeChar c = [c] \<and> c \<in> set urlChars" by (rule bspec)
  then show "lowerCase c = c" "c \<notin> set punctuators" "\<not> isWhiteSpace c" "encodeChar c = [c]"
    "c \<in> set urlChars" by blast+
qed

lemma urlD:
  assumes "c \<in> set urlChars"
  shows "\<not> isWhiteSpace c" "\<not> isWhiteSpace (lowerCase c)"
    "lowerCase c \<notin> set punctuators \<Longrightarrow> lowerCase c \<in> set plainChars"
proof -
  have "\<forall>c\<in>set urlChars. \<not> isWhiteSpace c \<and> \<not> isWhiteSpace (lowerCase c)
                  \<and> (lowerCase c \<notin> set punctuators \<longrightarrow> lowerCase c \<in> set plainChars)"
    using url_facts by (simp only: list_all_iff)
  from this assms have *: "\<not> isWhiteSpace c \<and> \<not> isWhiteSpace (lowerCase c)
                  \<and> (lowerCase c \<notin> set punctuators \<longrightarrow> lowerCase c \<in> set plainChars)" by (rule bspec)
  from * show "\<not> isWhiteSpace c" "\<not> isWhiteSpace (lowerCase c)" by blast+
  from * show "lowerCase c \<notin> set punctuators \<Longrightarrow> lowerCase c \<in> set plainChars" by blast
qed

lemma digit_facts: "list_all (\<lambda>c. c \<in> set plainChars \<and> \<not> isDash c) ''0123456789''"
  by code_simp

lemma decimal_plain: "set (decimal n) \<subseteq> set plainChars"
proof
  fix c assume "c \<in> set (decimal n)"
  then have "c \<in> set ''0123456789''" by (rule decimal_digits)
  moreover have "\<forall>c\<in>set ''0123456789''. c \<in> set plainChars \<and> \<not> isDash c"
    using digit_facts by (simp only: list_all_iff)
  ultimately show "c \<in> set plainChars" by blast
qed

lemma decimal_no_dash: "c \<in> set (decimal n) \<Longrightarrow> \<not> isDash c"
proof -
  assume "c \<in> set (decimal n)"
  then have "c \<in> set ''0123456789''" by (rule decimal_digits)
  moreover have "\<forall>c\<in>set ''0123456789''. c \<in> set plainChars \<and> \<not> isDash c"
    using digit_facts by (simp only: list_all_iff)
  ultimately show "\<not> isDash c" by blast
qed

lemma dash_plain: "CHR ''-'' \<in> set plainChars"
  by (simp add: plainChars_def)

lemma whitespaceToDash_none:
  "\<forall>c\<in>set s. \<not> isWhiteSpace c \<Longrightarrow> whitespaceToDash b s = s"
  by (induction s arbitrary: b) simp_all

lemma encodeURI_plain: "set s \<subseteq> set plainChars \<Longrightarrow> encodeURI s = s"
  by (induction s) (simp_all add: encodeURI_def plainD(4))

lemma strip_trailing_none:
  assumes "s \<noteq> []" and "\<not> P (last s)"
  shows "rev (dropWhile P (rev s)) = s"
proof -
  from assms(1) obtain ys y where s: "s = ys @ [y]" by (cases s rule: rev_cases) auto
  with assms(2) show ?thesis by simp
qed

lemma String_trim_none:
  assumes "\<forall>c\<in>set s. \<not> isWhiteSpace c"
  shows "String_trim s = s"
proof -
  from assms have a: "dropWhile isWhiteSpace s = s" by (rule dropWhile_none)
  from assms have b: "dropWhile isWhiteSpace (rev s) = rev s" by (intro dropWhile_none) simp
  show ?thesis unfolding String_trim_def by (simp only: a b rev_rev_ident)
qed

lemma filter_lower_plain:
  assumes "set v \<subseteq> set urlChars"
  shows "set (filter (\<lambda>c. c \<notin> set punctuators) (String_toLowerCase v)) \<subseteq> set plainChars"
proof
  fix x assume "x \<in> set (filter (\<lambda>c. c \<notin> set punctuators) (String_toLowerCase v))"
  then obtain ch where ch: "ch \<in> set v" and x: "x = lowerCase ch" and np: "x \<notin> set punctuators"
    by (auto simp: String_toLowerCase_def)
  from ch assms have "ch \<in> set urlChars" by blast
  from urlD(3) [OF this] np x show "x \<in> set plainChars" by simp
qed

lemma normalise_plain:
  assumes "set t \<subseteq> set plainChars"
  shows "String_toLowerCase t = t" and "filter (\<lambda>c. c \<notin> set punctuators) t = t"
proof -
  show "String_toLowerCase t = t"
    unfolding String_toLowerCase_def using assms plainD(1) by (intro map_idI) blast
  show "filter (\<lambda>c. c \<notin> set punctuators) t = t"
    using assms plainD(2) by (intro filter_True) blast
qed

lemma githubSlugifier_suffixed:
  assumes v: "set v \<subseteq> set urlChars"
    and w: "w = dropWhile isDash (filter (\<lambda>c. c \<notin> set punctuators) (String_toLowerCase v))"
  shows "githubSlugifier (v @ ''-'' @ decimal c) = (if w = [] then decimal c else w @ ''-'' @ decimal c)"
    and "set w \<subseteq> set plainChars"
proof -
  define d where "d = decimal c"
  define dd where "dd = ''-'' @ d"
  define w0 where "w0 = filter (\<lambda>c. c \<notin> set punctuators) (String_toLowerCase v)"
  define r where "r = (if w = [] then d else w @ dd)"
  have d_plain: "set d \<subseteq> set plainChars" unfolding d_def by (rule decimal_plain)
  have dd_plain: "set dd \<subseteq> set plainChars"
    using d_plain dash_plain by (auto simp: dd_def)
  have d_ne: "d \<noteq> []" unfolding d_def by (rule decimal_nonempty)
  have d_dash: "\<forall>x\<in>set d. \<not> isDash x" unfolding d_def using decimal_no_dash by blast
  have s_url: "set (v @ dd) \<subseteq> set urlChars"
    using v dd_plain plainD(5) by auto
  then have "\<forall>ch\<in>set (v @ dd). \<not> isWhiteSpace ch"
    using urlD(1) by blast
  then have trim: "String_trim (v @ dd) = v @ dd"
    by (rule String_trim_none)
  have low: "String_toLowerCase (v @ dd) = String_toLowerCase v @ dd"
    using normalise_plain(1) [OF dd_plain] by (simp add: String_toLowerCase_def)
  have "\<forall>ch\<in>set (String_toLowerCase (v @ dd)). \<not> isWhiteSpace ch"
  proof
    fix ch assume "ch \<in> set (String_toLowerCase (v @ dd))"
    then obtain x where "x \<in> set (v @ dd)" "ch = lowerCase x"
      unfolding String_toLowerCase_def by auto
    with s_url urlD(2) show "\<not> isWhiteSpace ch" by blast
  qed
  then have dash: "whitespaceToDash False (String_toLowerCase (v @ dd)) = String_toLowerCase (v @ dd)"
    by (rule whitespaceToDash_none)
  have filt: "filter (\<lambda>c. c \<notin> set punctuators) (String_toLowerCase (v @ dd)) = w0 @ dd"
    unfolding low using normalise_plain(2) [OF dd_plain] by (simp add: w0_def)
  have w0: "set w0 \<subseteq> set plainChars"
    unfolding w0_def using v by (rule filter_lower_plain)
  have ww: "w = dropWhile isDash w0" by (simp add: w w0_def)
  show wp: "set w \<subseteq> set plainChars"
  proof
    fix x assume "x \<in> set w"
    then have "x \<in> set w0" unfolding ww by (rule set_dropWhileD)
    with w0 show "x \<in> set plainChars" by blast
  qed
  have strip_dd: "dropWhile isDash dd = d"
  proof -
    have "dropWhile isDash dd = dropWhile isDash d" by (simp add: dd_def isDash_def)
    also from d_dash have "\<dots> = d" by (rule dropWhile_none)
    finally show ?thesis .
  qed
  have lead: "dropWhile isDash (w0 @ dd) = r"
  proof (cases "w = []")
    case True
    then have "\<forall>x\<in>set w0. isDash x" unfolding ww by (simp only: dropWhile_eq_Nil_conv)
    then have "dropWhile isDash (w0 @ dd) = dropWhile isDash dd"
      by (intro dropWhile_append2) blast
    with strip_dd True show ?thesis by (simp add: r_def)
  next
    case False
    then obtain x where "x \<in> set w0" "\<not> isDash x"
      unfolding ww dropWhile_eq_Nil_conv by blast
    then have "dropWhile isDash (w0 @ dd) = w @ dd"
      unfolding ww by (rule dropWhile_append1)
    with False show ?thesis unfolding r_def by simp
  qed
  have r_ne: "r \<noteq> []" using d_ne by (simp add: r_def dd_def)
  have "last r = last d" using d_ne by (simp add: r_def dd_def)
  moreover from d_ne d_dash have "\<not> isDash (last d)" by simp
  ultimately have "\<not> isDash (last r)" by simp
  with r_ne have trail: "rev (dropWhile isDash (rev r)) = r"
    by (rule strip_trailing_none)
  have "set r \<subseteq> set plainChars"
    using wp dd_plain d_plain by (auto simp: r_def)
  then have enc: "encodeURI r = r" by (rule encodeURI_plain)
  have "githubSlugifier (v @ dd) = r"
    unfolding githubSlugifier_def trim dash filt lead trail enc ..
  then show "githubSlugifier (v @ ''-'' @ decimal c) = (if w = [] then decimal c else w @ ''-'' @ decimal c)"
    unfolding r_def dd_def d_def .
qed

lemma githubSlugifier_url: "set (githubSlugifier t) \<subseteq> set urlChars"
  unfolding githubSlugifier_def by (rule encodeURI_url)

lemma encodeChar_head: "encodeChar a \<noteq> [] \<and> (hd (encodeChar a) = a \<or> hd (encodeChar a) = CHR ''%'')"
  by (simp add: encodeChar_def percentByte_def)

lemma strip_trailing_head:
  assumes "rev (dropWhile P (rev z)) \<noteq> []"
  shows "hd (rev (dropWhile P (rev z))) = hd z"
proof -
  have "rev (dropWhile P (rev z)) = take (length z - length (takeWhile P (rev z))) z"
    by (simp add: dropWhile_eq_drop rev_drop)
  with assms show ?thesis by (metis hd_take take_eq_Nil2 gr0I)
qed

lemma githubSlugifier_no_leading_dash:
  "githubSlugifier t = [] \<or> \<not> isDash (hd (githubSlugifier t))"
proof -
  define z where "z = dropWhile isDash (filter (\<lambda>c. c \<notin> set punctuators)
                        (whitespaceToDash False (String_toLowerCase (String_trim t))))"
  define y where "y = rev (dropWhile isDash (rev z))"
  have g: "githubSlugifier t = encodeURI y"
    by (simp add: githubSlugifier_def y_def z_def)
  show ?thesis
  proof (cases y)
    case Nil
    with g show ?thesis by (simp add: encodeURI_def)
  next
    case (Cons a y')
    then have "y \<noteq> []" by simp
    then have "hd y = hd z" unfolding y_def by (rule strip_trailing_head)
    moreover from \<open>y \<noteq> []\<close> have "z \<noteq> []" by (auto simp: y_def)
    then have "\<not> isDash (hd z)" unfolding z_def by (rule hd_dropWhile)
    ultimately have a: "\<not> isDash a" using Cons by simp
    from g Cons have "hd (githubSlugifier t) = hd (encodeChar a)"
      using encodeChar_head [of a] by (simp add: encodeURI_def)
    with a encodeChar_head [of a] show ?thesis by (auto simp: isDash_def)
  qed
qed

lemma githubSlugifier_suffix_of_plain:
  assumes v: "v = githubSlugifier t" and p: "set v \<subseteq> set plainChars"
  shows "githubSlugifier (v @ ''-'' @ decimal c) = (if v = [] then decimal c else v @ ''-'' @ decimal c)"
proof -
  from p plainD(5) have u: "set v \<subseteq> set urlChars" by blast
  from githubSlugifier_no_leading_dash [of t] have "v = [] \<or> \<not> isDash (hd v)"
    by (simp only: v)
  then have "dropWhile isDash v = v" by (cases v) auto
  then have "v = dropWhile isDash (filter (\<lambda>c. c \<notin> set punctuators) (String_toLowerCase v))"
    by (simp only: normalise_plain [OF p])
  from githubSlugifier_suffixed(1) [OF u this] show ?thesis .
qed

lemma githubSlugifier_suffixes_distinct:
  assumes v: "v = githubSlugifier t"
  shows "githubSlugifier (v @ ''-'' @ decimal c) \<noteq> v"
    and "githubSlugifier (v @ ''-'' @ decimal c) = githubSlugifier (v @ ''-'' @ decimal c') \<Longrightarrow> c = c'"
proof -
  define w where "w = dropWhile isDash (filter (\<lambda>c. c \<notin> set punctuators) (String_toLowerCase v))"
  from v have u: "set v \<subseteq> set urlChars" by (simp add: githubSlugifier_url)
  note eq = githubSlugifier_suffixed(1) [OF u w_def]
  note wp = githubSlugifier_suffixed(2) [OF u w_def]
  show "githubSlugifier (v @ ''-'' @ decimal c) \<noteq> v"
  proof
    assume same: "githubSlugifier (v @ ''-'' @ decimal c) = v"
    have "set (if w = [] then decimal c else w @ ''-'' @ decimal c) \<subseteq> set plainChars"
      using wp decimal_plain [of c] dash_plain by auto
    with eq [of c] same have p: "set v \<subseteq> set plainChars" by simp
    from githubSlugifier_suffix_of_plain [OF v p, of c] same
    have "v = (if v = [] then decimal c else v @ ''-'' @ decimal c)" by simp
    then show False using decimal_nonempty [of c] by (simp split: if_splits)
  qed
  show "c = c'" if "githubSlugifier (v @ ''-'' @ decimal c) = githubSlugifier (v @ ''-'' @ decimal c')"
  proof -
    from that eq [of c] eq [of c'] have "decimal c = decimal c'"
      by (simp split: if_splits)
    then show ?thesis by (rule decimal_inj)
  qed
qed

subsection \<open>The slugs of repeated headings, with the slugifier of the program\<close>

text \<open>
  C3 (as amended). The slug of an entry whose slug value no earlier entry has is that
  value; the slug of an entry whose value \<open>c\<close> earlier entries have is what the
  slugifier makes of the value followed by a dash and \<open>c\<close> in decimal, and \<open>c\<close> is 1 at
  the first collision and grows by one with each further one. With the slugifier of
  the program, this is the value followed by the dash and \<open>c\<close> whenever the value is
  not empty and made of lower-case letters, digits, dashes and underscores only, and
  in every case entries with the same slug value get pairwise distinct slugs.
\<close>

theorem duplicate_slugs_get_counter_suffix:
  assumes toc: "buildToc fromHeading doc tokens = Inr toc"
    and k: "k < length toc"
    and c: "c = collisions fromHeading doc (take k toc) (toc ! k)"
    and raw: "raw = rawSlug fromHeading doc (toc ! k)"
  shows "slug (toc ! k) = (if c = 0 then raw else fromHeading (raw @ ''-'' @ decimal c))
    \<and> (\<forall>j<k. rawSlug fromHeading doc (toc ! j) = raw
           \<longrightarrow> collisions fromHeading doc (take j toc) (toc ! j) < c)
    \<and> (fromHeading = githubSlugifier \<longrightarrow>
          (c \<noteq> 0 \<and> raw \<noteq> [] \<and> set raw \<subseteq> set plainChars
             \<longrightarrow> slug (toc ! k) = raw @ ''-'' @ decimal c)
          \<and> (\<forall>j<k. rawSlug fromHeading doc (toc ! j) = raw
                 \<longrightarrow> slug (toc ! j) \<noteq> slug (toc ! k)))"
proof -
  note ok = buildToc_slugs_ok [OF toc]
  have slugs: "slug (toc ! i) = (if collisions fromHeading doc (take i toc) (toc ! i) = 0
                     then rawSlug fromHeading doc (toc ! i)
                     else fromHeading (rawSlug fromHeading doc (toc ! i) @ ''-''
                          @ decimal (collisions fromHeading doc (take i toc) (toc ! i))))"
    if "i < length toc" for i
    using ok that by (simp add: slugs_ok_def expectedSlug_def)
  from slugs [OF k]
  have one: "slug (toc ! k) = (if c = 0 then raw else fromHeading (raw @ ''-'' @ decimal c))"
    by (simp add: c [symmetric] raw [symmetric])
  have two: "collisions fromHeading doc (take j toc) (toc ! j) < c"
    if "j < k" and "rawSlug fromHeading doc (toc ! j) = raw" for j
    unfolding c using that k by (intro collisions_mono) (simp_all add: raw)
  have three: "(c \<noteq> 0 \<and> raw \<noteq> [] \<and> set raw \<subseteq> set plainChars
                  \<longrightarrow> slug (toc ! k) = raw @ ''-'' @ decimal c)
               \<and> (\<forall>j<k. rawSlug fromHeading doc (toc ! j) = raw
                      \<longrightarrow> slug (toc ! j) \<noteq> slug (toc ! k))"
    if gh: "fromHeading = githubSlugifier"
  proof -
    from raw gh have v: "raw = githubSlugifier (lines doc ! nat (line (toc ! k)))"
      by (simp add: rawSlug_def)
    have plain: "slug (toc ! k) = raw @ ''-'' @ decimal c"
      if "c \<noteq> 0 \<and> raw \<noteq> [] \<and> set raw \<subseteq> set plainChars"
    proof -
      from that have p: "set raw \<subseteq> set plainChars" and ne: "raw \<noteq> []" and c0: "c \<noteq> 0"
        by simp_all
      from githubSlugifier_suffix_of_plain [OF v p, of c] ne
      have "githubSlugifier (raw @ ''-'' @ decimal c) = raw @ ''-'' @ decimal c"
        by (simp only: if_False)
      with one c0 gh show ?thesis by (simp only: if_False)
    qed
    have distinct: "slug (toc ! j) \<noteq> slug (toc ! k)"
      if j: "j < k" and same: "rawSlug fromHeading doc (toc ! j) = raw" for j
    proof -
      let ?cj = "collisions fromHeading doc (take j toc) (toc ! j)"
      from two [OF j same] have lt: "?cj < c" .
      then have c0: "c \<noteq> 0" by simp
      from j k have "j < length toc" by simp
      from slugs [OF this] same gh
      have sj: "slug (toc ! j) = (if ?cj = 0 then raw else githubSlugifier (raw @ ''-'' @ decimal ?cj))"
        by simp
      from one c0 gh have sk: "slug (toc ! k) = githubSlugifier (raw @ ''-'' @ decimal c)"
        by (simp only: if_False)
      show ?thesis
      proof (cases "?cj = 0")
        case True
        with sj have "slug (toc ! j) = raw" by simp
        with sk githubSlugifier_suffixes_distinct(1) [OF v, of c] show ?thesis by simp
      next
        case False
        with sj have "slug (toc ! j) = githubSlugifier (raw @ ''-'' @ decimal ?cj)" by simp
        with sk githubSlugifier_suffixes_distinct(2) [OF v, of ?cj c] lt show ?thesis
          by (metis less_irrefl)
      qed
    qed
    from plain distinct show ?thesis by blast
  qed
  from one two three show ?thesis by blast
qed

theorem duplicate_slugs_get_counter_suffix_witness:
  "map slug accentToc = [''%C3%A9'', ''c3a9-1'', ''c3a9-2'']
   \<and> slug (accentToc ! 1) = githubSlugifier (''%C3%A9'' @ ''-'' @ decimal 1)
   \<and> slug (accentToc ! 2) = githubSlugifier (''%C3%A9'' @ ''-'' @ decimal 2)
   \<and> slug (accentToc ! 0) \<noteq> slug (accentToc ! 2)
   \<and> slug (accentToc ! 1) \<noteq> slug (accentToc ! 2)
   \<and> map slug repeatedToc = [''a-b'', ''a-b-1'', ''a-b-2'']
   \<and> slug (repeatedToc ! 2) = ''a-b'' @ ''-'' @ decimal 2"
proof -
  have run: "buildToc githubSlugifier accentDoc accentTokens = Inr accentToc"
    by code_simp
  have len: "length accentToc = 3"
    and all: "map slug accentToc = [''%C3%A9'', ''c3a9-1'', ''c3a9-2'']"
    by code_simp+
  have raw: "rawSlug githubSlugifier accentDoc (accentToc ! 0) = ''%C3%A9''"
    "rawSlug githubSlugifier accentDoc (accentToc ! 1) = ''%C3%A9''"
    "rawSlug githubSlugifier accentDoc (accentToc ! 2) = ''%C3%A9''"
    by code_simp+
  have c1: "1 = collisions githubSlugifier accentDoc (take 1 accentToc) (accentToc ! 1)"
    and c2: "2 = collisions githubSlugifier accentDoc (take 2 accentToc) (accentToc ! 2)"
    by code_simp+
  have k1: "1 < length accentToc" and k2: "2 < length accentToc" by (simp_all add: len)
  note h1 = duplicate_slugs_get_counter_suffix [OF run k1 c1 raw(2) [symmetric]]
  note h2 = duplicate_slugs_get_counter_suffix [OF run k2 c2 raw(3) [symmetric]]
  from h1 have s1: "slug (accentToc ! 1) = githubSlugifier (''%C3%A9'' @ ''-'' @ decimal 1)" by simp
  from h2 have s2: "slug (accentToc ! 2) = githubSlugifier (''%C3%A9'' @ ''-'' @ decimal 2)" by simp
  note h2' = h2 [THEN conjunct2, THEN conjunct2, THEN mp, OF refl, THEN conjunct2]
  from h2' raw(1) have n0: "slug (accentToc ! 0) \<noteq> slug (accentToc ! 2)"
    by (metis zero_less_numeral)
  from h2' raw(2) have n1: "slug (accentToc ! 1) \<noteq> slug (accentToc ! 2)"
    by (metis one_less_numeral_iff semiring_norm(76))
  have runr: "buildToc githubSlugifier repeatedDoc repeatedTokens = Inr repeatedToc"
    by code_simp
  have lenr: "2 < length repeatedToc"
    and allr: "map slug repeatedToc = [''a-b'', ''a-b-1'', ''a-b-2'']"
    by code_simp+
  have rawr: "''a-b'' = rawSlug githubSlugifier repeatedDoc (repeatedToc ! 2)"
    by code_simp
  have cr: "2 = collisions githubSlugifier repeatedDoc (take 2 repeatedToc) (repeatedToc ! 2)"
    by code_simp
  have pl: "(2::nat) \<noteq> 0 \<and> ''a-b'' \<noteq> [] \<and> set ''a-b'' \<subseteq> set plainChars"
    by (simp add: plainChars_def)
  note hr = duplicate_slugs_get_counter_suffix [OF runr lenr cr rawr]
  note hr' = hr [THEN conjunct2, THEN conjunct2, THEN mp, OF refl, THEN conjunct1, THEN mp, OF pl]
  from all s1 s2 n0 n1 allr hr' show ?thesis by blast
qed

text \<open>
  C3 as stated fails for a heading whose slug has an escape: the second heading that
  reads U+00E9 does not get the first one's slug \<^verbatim>\<open>%C3%A9\<close> followed by \<^verbatim>\<open>-1\<close>: the
  suffixed value goes through the slugifier again, which drops the percent signs and
  puts the rest in lower case.
\<close>

theorem duplicate_slug_suffix_counterexample:
  "slugsOf (buildToc githubSlugifier accentDoc accentTokens) = [''%C3%A9'', ''c3a9-1'', ''c3a9-2'']
   \<and> ''c3a9-1'' \<noteq> ''%C3%A9'' @ ''-1''"
  by code_simp

subsection \<open>\<^verbatim>\<open>buildToc\<close> returns\<close>

text \<open>
  \<^verbatim>\<open>buildToc\<close> reads the document only at the lines of the heading tokens and at the
  ends of the sections, so it returns a table whenever the heading tokens are on lines
  of the document, in increasing order.
\<close>

lemma line_newEntry: "line (newEntry doc heading n t sl) = n"
  by (simp add: newEntry_def Let_def)

lemma headings_returns:
  assumes "\<forall>n\<in>set (map fst (List.map_filter map' tokens)). 0 \<le> n \<and> n < lineCount doc"
  shows "\<exists>r. headings f doc tokens seen toc = Inr r
             \<and> map line r = map line toc @ map fst (List.map_filter map' tokens)"
  using assms
proof (induction tokens arbitrary: seen toc)
  case Nil
  then show ?case by (simp add: map_filter_simps)
next
  case (Cons heading rest)
  show ?case
  proof (cases "map' heading")
    case None
    with Cons show ?thesis by (simp add: map_filter_simps)
  next
    case (Some m)
    obtain n lineEnd where m: "m = (n, lineEnd)" by (cases m)
    from Cons.prems Some m have n: "0 \<le> n \<and> n < lineCount doc"
      and rest: "\<forall>n\<in>set (map fst (List.map_filter map' rest)). 0 \<le> n \<and> n < lineCount doc"
      by (simp_all add: map_filter_simps)
    from n have la: "lineAt doc n = Inr (lines doc ! nat n)" by (simp add: lineAt_def)
    let ?t = "lines doc ! nat n"
    have lines: "map fst (List.map_filter map' (heading # rest)) = n # map fst (List.map_filter map' rest)"
      using Some m by (simp add: map_filter_simps)
    show ?thesis
    proof (cases "seen (f ?t)")
      case None
      let ?toc = "toc @ [newEntry doc heading n ?t (f ?t)]"
      have step: "headings f doc (heading # rest) seen toc
                    = headings f doc rest (seen(f ?t \<mapsto> 0)) ?toc"
        using Some m la None by (simp add: Let_def)
      from Cons.IH [OF rest] obtain r where
        "headings f doc rest (seen(f ?t \<mapsto> 0)) ?toc = Inr r"
        "map line r = map line ?toc @ map fst (List.map_filter map' rest)"
        by blast
      with step lines show ?thesis by (simp add: line_newEntry)
    next
      case (Some c)
      let ?toc = "toc @ [newEntry doc heading n ?t (f (f ?t @ ''-'' @ decimal (c + 1)))]"
      have step: "headings f doc (heading # rest) seen toc
                    = headings f doc rest (seen(f ?t \<mapsto> c + 1)) ?toc"
        using \<open>map' heading = Some m\<close> m la Some by (simp add: Let_def)
      from Cons.IH [OF rest] obtain r where
        "headings f doc rest (seen(f ?t \<mapsto> c + 1)) ?toc = Inr r"
        "map line r = map line ?toc @ map fst (List.map_filter map' rest)"
        by blast
      with step lines show ?thesis by (simp add: line_newEntry)
    qed
  qed
qed

lemma sectionEnd_line:
  "sectionEnd entry later = Some e \<Longrightarrow> \<exists>x\<in>set later. e = line x - 1"
  by (induction later) (auto split: if_splits)

lemma sections_returns:
  assumes "\<forall>x\<in>set toc. 0 \<le> line x \<and> line x < lineCount doc"
    and "sorted_wrt (<) (map line toc)"
  shows "\<exists>r. sections doc toc = Inr r"
  using assms
proof (induction toc)
  case Nil
  then show ?case by simp
next
  case (Cons entry later)
  from Cons.prems have later: "\<exists>r. sections doc later = Inr r"
    by (intro Cons.IH) simp_all
  let ?e = "case sectionEnd entry later of Some e \<Rightarrow> e | None \<Rightarrow> lineCount doc - 1"
  have e: "0 \<le> ?e \<and> ?e < lineCount doc"
  proof (cases "sectionEnd entry later")
    case None
    with Cons.prems(1) show ?thesis by auto
  next
    case (Some v)
    from sectionEnd_line [OF Some] obtain x where x: "x \<in> set later" "v = line x - 1" by blast
    from Cons.prems(2) x(1) have "line entry < line x" by auto
    moreover from Cons.prems(1) x(1) have "0 \<le> line entry" "line x < lineCount doc" by auto
    ultimately show ?thesis using Some x(2) by simp
  qed
  then have "lineAt doc ?e = Inr (lines doc ! nat ?e)" by (simp add: lineAt_def)
  with later show ?case by (auto simp: Let_def)
qed

lemma buildToc_returns:
  assumes "\<forall>n\<in>set (headingLines tokens). 0 \<le> n \<and> n < lineCount doc"
    and "sorted_wrt (<) (headingLines tokens)"
  shows "\<exists>toc. buildToc f doc tokens = Inr toc"
proof -
  let ?hs = "filter (\<lambda>token. type' token = ''heading_open'') tokens"
  from assms(1) have "\<forall>n\<in>set (map fst (List.map_filter map' ?hs)). 0 \<le> n \<and> n < lineCount doc"
    by (simp add: headingLines_def)
  from headings_returns [OF this, of f Map.empty "[]"] obtain r where
    r: "headings f doc ?hs Map.empty [] = Inr r" and l: "map line r = headingLines tokens"
    by (auto simp: headingLines_def)
  from assms l have "\<forall>x\<in>set r. 0 \<le> line x \<and> line x < lineCount doc"
    by (metis (no_types, lifting) image_eqI list.set_map)
  moreover from assms(2) l have "sorted_wrt (<) (map line r)" by simp
  ultimately obtain toc where "sections doc r = Inr toc"
    using sections_returns by blast
  with r show ?thesis by (simp add: buildToc_def)
qed

text \<open>
  A generated slug is not compared with the slugs already given: a heading that reads
  like the generated slug of an earlier one gets the same slug.
\<close>

lemma generated_slug_can_repeat:
  "slugsOf (buildToc githubSlugifier clashDoc clashTokens) = [''a'', ''a-1'', ''a-1'']"
  by code_simp

section \<open>Properties of the document symbols\<close>

lemma frame_ok_mono: "frame_ok toc n p \<Longrightarrow> n \<le> m \<Longrightarrow> frame_ok toc m p"
  by (induction rule: frame_ok.induct) (auto intro: frame_ok.intros)

lemma frame_ok_array:
  "frame_ok toc n p \<Longrightarrow>
     sym_children p = RootChildren \<and> sym_level p = MinusInfinity
     \<or> (\<exists>i<n. sym_children p = ChildrenOf i \<and> sym_level p = Level (level (toc ! i)))"
  by (induction rule: frame_ok.induct) auto

lemma climb_ok:
  "frame_ok toc n p \<Longrightarrow>
     \<exists>q. climb l p = Inr q \<and> frame_ok toc n q \<and> \<not> level_le l (sym_level q)"
proof (induction rule: frame_ok.induct)
  case root
  show ?case by (auto intro: frame_ok.root)
next
  case (node i q)
  show ?case
  proof (cases "l \<le> level (toc ! i)")
    case True
    with node.IH show ?thesis by simp
  next
    case False
    with node.hyps show ?thesis by (auto intro: frame_ok.node)
  qed
qed

lemma climb_stays: "\<not> level_le l (sym_level q) \<Longrightarrow> climb l q = Inr q"
  by (cases q; cases "parent q") auto

lemma buildTree_step:
  assumes run: "buildTree h p (entry # rest) = Inr h'"
    and p: "frame_ok toc (length (symbols h)) p"
  shows "\<exists>symbol q. toDocumentSymbol (length (symbols h)) entry = Inr symbol
           \<and> children symbol = ChildrenOf (length (symbols h))
           \<and> climb (level entry) p = Inr q
           \<and> frame_ok toc (length (symbols h)) q
           \<and> \<not> level_le (level entry) (sym_level q)
           \<and> buildTree (pushed h symbol q)
                (MarkdownSymbol (Level (level entry)) (Some q) (ChildrenOf (length (symbols h)))) rest
               = Inr h'"
proof -
  from run obtain symbol where s: "toDocumentSymbol (length (symbols h)) entry = Inr symbol"
    by (auto split: sum.splits)
  then have ch: "children symbol = ChildrenOf (length (symbols h))"
    by (auto simp: toDocumentSymbol_def split: sum.splits)
  from climb_ok [OF p] obtain q where q: "climb (level entry) p = Inr q"
    "frame_ok toc (length (symbols h)) q" "\<not> level_le (level entry) (sym_level q)"
    by blast
  from run s q(1) ch have "buildTree (pushed h symbol q)
                (MarkdownSymbol (Level (level entry)) (Some q) (ChildrenOf (length (symbols h)))) rest
               = Inr h'"
    by (simp add: pushed_def Let_def)
  with s ch q show ?thesis by blast
qed

lemma pushed_symbols [simp]: "length (symbols (pushed h symbol q)) = Suc (length (symbols h))"
  by (simp add: pushed_def)

lemma pushed_member:
  assumes "children symbol = ChildrenOf (length (symbols h))"
    and "frame_ok toc (length (symbols h)) q"
  shows "length (symbols h) \<in> set (arrays (pushed h symbol q) (sym_children q))"
  by (simp add: pushed_def)

lemma pushed_keeps:
  assumes "children symbol = ChildrenOf (length (symbols h))"
    and "arr \<noteq> ChildrenOf (length (symbols h))"
  shows "set (arrays h arr) \<subseteq> set (arrays (pushed h symbol q) arr)"
  using assms by (auto simp: pushed_def)

lemma pushed_heap_ok:
  assumes ok: "heap_ok toc h"
    and ch: "children symbol = ChildrenOf (length (symbols h))"
    and q: "frame_ok toc (length (symbols h)) q"
    and lv: "\<not> level_le (level (toc ! length (symbols h))) (sym_level q)"
  shows "heap_ok toc (pushed h symbol q)"
  unfolding heap_ok_def
proof (intro allI impI)
  fix arr c assume c: "c \<in> set (arrays (pushed h symbol q) arr)"
  let ?n = "length (symbols h)"
  from c have "c \<in> set (arrays h arr) \<or> (c = ?n \<and> arr = sym_children q)"
    by (auto simp: pushed_def ch split: if_splits)
  then show "c < length (symbols (pushed h symbol q))
        \<and> (\<forall>p. arr = ChildrenOf p \<longrightarrow> p < c \<and> level (toc ! p) < level (toc ! c))"
  proof
    assume "c \<in> set (arrays h arr)"
    with ok have "c < length (symbols h)
        \<and> (\<forall>p. arr = ChildrenOf p \<longrightarrow> p < c \<and> level (toc ! p) < level (toc ! c))"
      unfolding heap_ok_def by blast
    then show ?thesis by simp
  next
    assume new: "c = ?n \<and> arr = sym_children q"
    from frame_ok_array [OF q] lv new
    have "\<forall>p. arr = ChildrenOf p \<longrightarrow> p < c \<and> level (toc ! p) < level (toc ! c)"
      by auto
    with new show ?thesis by simp
  qed
qed

lemma drop_Cons_nth:
  assumes "entry # rest = drop n toc"
  shows "n < length toc" and "toc ! n = entry" and "rest = drop (Suc n) toc"
proof -
  from assms show n: "n < length toc"
    by (metis drop_all linorder_not_less list.discI)
  from n have "drop n toc = toc ! n # drop (Suc n) toc" by (simp add: Cons_nth_drop_Suc)
  with assms show "toc ! n = entry" and "rest = drop (Suc n) toc" by simp_all
qed

lemma buildTree_turn:
  assumes run: "buildTree h p (entry # rest) = Inr h'"
    and ok: "heap_ok toc h"
    and p: "frame_ok toc (length (symbols h)) p"
    and es: "entry # rest = drop (length (symbols h)) toc"
  shows "\<exists>symbol q.
           children symbol = ChildrenOf (length (symbols h))
           \<and> climb (level entry) p = Inr q
           \<and> frame_ok toc (length (symbols h)) q
           \<and> \<not> level_le (level entry) (sym_level q)
           \<and> buildTree (pushed h symbol q)
                (MarkdownSymbol (Level (level entry)) (Some q) (ChildrenOf (length (symbols h)))) rest
               = Inr h'
           \<and> heap_ok toc (pushed h symbol q)
           \<and> frame_ok toc (length (symbols (pushed h symbol q)))
                (MarkdownSymbol (Level (level entry)) (Some q) (ChildrenOf (length (symbols h))))
           \<and> rest = drop (length (symbols (pushed h symbol q))) toc"
proof -
  let ?n = "length (symbols h)"
  note d = drop_Cons_nth [OF es]
  from buildTree_step [OF run p] obtain symbol q where
    ch: "children symbol = ChildrenOf ?n"
    and cl: "climb (level entry) p = Inr q"
    and q: "frame_ok toc ?n q" "\<not> level_le (level entry) (sym_level q)"
    and run': "buildTree (pushed h symbol q)
                (MarkdownSymbol (Level (level entry)) (Some q) (ChildrenOf ?n)) rest = Inr h'"
    by blast
  have ok': "heap_ok toc (pushed h symbol q)"
    using ok ch q(1) q(2) [folded d(2)] by (rule pushed_heap_ok)
  have fr: "frame_ok toc (length (symbols (pushed h symbol q)))
              (MarkdownSymbol (Level (level entry)) (Some q) (ChildrenOf ?n))"
    using frame_ok.node [of ?n "Suc ?n" toc q] frame_ok_mono [OF q(1), of "Suc ?n"] d(2)
    by simp
  from d(3) have "rest = drop (length (symbols (pushed h symbol q))) toc" by simp
  with ch cl q run' ok' fr show ?thesis by blast
qed

lemma buildTree_heap_ok:
  assumes "buildTree h p entries = Inr h'"
    and "heap_ok toc h" and "frame_ok toc (length (symbols h)) p"
    and "entries = drop (length (symbols h)) toc"
  shows "heap_ok toc h' \<and> length (symbols h') = length (symbols h) + length entries"
  using assms
proof (induction entries arbitrary: h p)
  case Nil
  then show ?case by simp
next
  case (Cons entry rest)
  from buildTree_turn [OF Cons.prems] obtain symbol q where
    run: "buildTree (pushed h symbol q)
            (MarkdownSymbol (Level (level entry)) (Some q) (ChildrenOf (length (symbols h)))) rest = Inr h'"
    and ok: "heap_ok toc (pushed h symbol q)"
    and fr: "frame_ok toc (length (symbols (pushed h symbol q)))
                (MarkdownSymbol (Level (level entry)) (Some q) (ChildrenOf (length (symbols h))))"
    and rest: "rest = drop (length (symbols (pushed h symbol q))) toc"
    by blast
  from Cons.IH [OF run ok fr rest] show ?case by simp
qed

lemma buildTree_keeps:
  assumes "buildTree h p entries = Inr h'"
    and "heap_ok toc h" and "frame_ok toc (length (symbols h)) p"
    and "entries = drop (length (symbols h)) toc"
    and "arr = RootChildren \<or> (\<exists>i<length (symbols h). arr = ChildrenOf i)"
  shows "set (arrays h arr) \<subseteq> set (arrays h' arr)"
  using assms
proof (induction entries arbitrary: h p)
  case Nil
  then show ?case by simp
next
  case (Cons entry rest)
  from buildTree_turn [OF Cons.prems(1-4)] obtain symbol q where
    ch: "children symbol = ChildrenOf (length (symbols h))"
    and run: "buildTree (pushed h symbol q)
            (MarkdownSymbol (Level (level entry)) (Some q) (ChildrenOf (length (symbols h)))) rest = Inr h'"
    and ok: "heap_ok toc (pushed h symbol q)"
    and fr: "frame_ok toc (length (symbols (pushed h symbol q)))
                (MarkdownSymbol (Level (level entry)) (Some q) (ChildrenOf (length (symbols h))))"
    and rest: "rest = drop (length (symbols (pushed h symbol q))) toc"
    by blast
  from Cons.prems(5) have ne: "arr \<noteq> ChildrenOf (length (symbols h))" by auto
  from Cons.prems(5) have arr: "arr = RootChildren
      \<or> (\<exists>i<length (symbols (pushed h symbol q)). arr = ChildrenOf i)"
    by auto
  from pushed_keeps [OF ch ne] have "set (arrays h arr) \<subseteq> set (arrays (pushed h symbol q) arr)" .
  also from Cons.IH [OF run ok fr rest arr] have "\<dots> \<subseteq> set (arrays h' arr)" .
  finally show ?case .
qed

lemma buildTree_siblings:
  assumes "buildTree h p entries = Inr h'"
    and "heap_ok toc h" and "frame_ok toc (length (symbols h)) p"
    and "entries = drop (length (symbols h)) toc"
    and "Suc i < length entries" and "level (entries ! i) = level (entries ! Suc i)"
  shows "\<exists>arr. length (symbols h) + i \<in> set (arrays h' arr)
             \<and> Suc (length (symbols h) + i) \<in> set (arrays h' arr)"
  using assms
proof (induction entries arbitrary: h p i)
  case Nil
  then show ?case by simp
next
  case (Cons entry rest)
  let ?n = "length (symbols h)"
  let ?f = "MarkdownSymbol (Level (level entry)) (Some q) (ChildrenOf ?n)"
  from buildTree_turn [OF Cons.prems(1-4)] obtain symbol q where
    ch: "children symbol = ChildrenOf ?n"
    and q: "frame_ok toc ?n q" "\<not> level_le (level entry) (sym_level q)"
    and run: "buildTree (pushed h symbol q)
            (MarkdownSymbol (Level (level entry)) (Some q) (ChildrenOf ?n)) rest = Inr h'"
    and ok: "heap_ok toc (pushed h symbol q)"
    and fr: "frame_ok toc (length (symbols (pushed h symbol q)))
                (MarkdownSymbol (Level (level entry)) (Some q) (ChildrenOf ?n))"
    and rest: "rest = drop (length (symbols (pushed h symbol q))) toc"
    by blast
  show ?case
  proof (cases i)
    case (Suc i')
    with Cons.prems(5,6) have "Suc i' < length rest" "level (rest ! i') = level (rest ! Suc i')"
      by simp_all
    from Cons.IH [OF run ok fr rest this] Suc show ?thesis by simp
  next
    case 0
    with Cons.prems(5) obtain second more where r2: "rest = second # more"
      by (cases rest) auto
    with 0 Cons.prems(6) have same: "level second = level entry" by simp
    let ?h1 = "pushed h symbol q"
    let ?f1 = "MarkdownSymbol (Level (level entry)) (Some q) (ChildrenOf ?n)"
    from rest r2 have es: "second # more = drop (length (symbols ?h1)) toc" by simp
    from buildTree_turn [OF run [unfolded r2] ok fr es] obtain symbol2 q2 where
      ch2: "children symbol2 = ChildrenOf (length (symbols ?h1))"
      and cl2: "climb (level second) ?f1 = Inr q2"
      and run2: "buildTree (pushed ?h1 symbol2 q2)
            (MarkdownSymbol (Level (level second)) (Some q2) (ChildrenOf (length (symbols ?h1)))) more = Inr h'"
      and ok2: "heap_ok toc (pushed ?h1 symbol2 q2)"
      and fr2: "frame_ok toc (length (symbols (pushed ?h1 symbol2 q2)))
                (MarkdownSymbol (Level (level second)) (Some q2) (ChildrenOf (length (symbols ?h1))))"
      and rest2: "more = drop (length (symbols (pushed ?h1 symbol2 q2))) toc"
      by blast
    from q(2) same have "climb (level second) ?f1 = Inr q"
      by (simp add: climb_stays)
    with cl2 have q2: "q2 = q" by simp
    let ?arr = "sym_children q"
    from frame_ok_array [OF q(1)] have arr: "?arr = RootChildren \<or> (\<exists>i<?n. ?arr = ChildrenOf i)"
      by auto
    then have arr1: "?arr \<noteq> ChildrenOf (length (symbols ?h1))" by auto
    from arr have arr2: "?arr = RootChildren
        \<or> (\<exists>i<length (symbols (pushed ?h1 symbol2 q2)). ?arr = ChildrenOf i)"
      by auto
    have first: "?n \<in> set (arrays ?h1 ?arr)" using ch q(1) by (rule pushed_member)
    with pushed_keeps [OF ch2 arr1] have "?n \<in> set (arrays (pushed ?h1 symbol2 q2) ?arr)"
      by blast
    moreover have "Suc ?n \<in> set (arrays (pushed ?h1 symbol2 q2) ?arr)"
      using pushed_member [OF ch2, of toc q] frame_ok_mono [OF q(1), of "length (symbols ?h1)"]
      by (simp add: q2)
    moreover note buildTree_keeps [OF run2 ok2 fr2 rest2 arr2]
    ultimately have "?n \<in> set (arrays h' ?arr) \<and> Suc ?n \<in> set (arrays h' ?arr)" by blast
    with 0 show ?thesis by auto
  qed
qed

lemma descendantOf_later:
  assumes ok: "heap_ok toc h" and d: "descendantOf h a b"
  shows "a < b \<and> b < length (symbols h) \<and> level (toc ! a) < level (toc ! b)"
  using d unfolding descendantOf_def
proof (induction rule: tranclp_induct)
  case (base c)
  with ok show ?case unfolding heap_ok_def childOf_def by blast
next
  case (step c d)
  from step.hyps(2) ok have "c < d \<and> d < length (symbols h) \<and> level (toc ! c) < level (toc ! d)"
    unfolding heap_ok_def childOf_def by blast
  with step.IH show ?case by simp
qed

lemma initial_ok:
  "heap_ok toc \<lparr>symbols = [], arrays = (\<lambda>a. [])\<rparr>"
  "frame_ok toc (length (symbols \<lparr>symbols = [], arrays = (\<lambda>a. [])\<rparr>))
     (MarkdownSymbol MinusInfinity None RootChildren)"
  "toc = drop (length (symbols \<lparr>symbols = [], arrays = (\<lambda>a. [])\<rparr>)) toc"
  by (simp_all add: heap_ok_def frame_ok.root)

text \<open>
  C2. In the store \<^verbatim>\<open>provideDocumentSymbols\<close> returns, a symbol that is a descendant
  of another one comes later in the document and has a strictly greater level: no
  heading is a descendant of an earlier heading whose level is greater than or equal
  to its own. Two consecutive headings of equal level are pushed on the same array
  (they are siblings), and neither is a descendant of the other.
\<close>

theorem headings_nest_under_shallower_only:
  assumes run: "provideDocumentSymbols toc = Inr h"
  shows "length (symbols h) = length toc
    \<and> (\<forall>a b. descendantOf h a b \<longrightarrow> a < b \<and> b < length toc \<and> level (toc ! a) < level (toc ! b))
    \<and> (\<forall>a b. a < b \<and> level (toc ! b) \<le> level (toc ! a) \<longrightarrow> \<not> descendantOf h a b)
    \<and> (\<forall>k. Suc k < length toc \<and> level (toc ! k) = level (toc ! Suc k) \<longrightarrow>
          (\<exists>arr. k \<in> set (arrays h arr) \<and> Suc k \<in> set (arrays h arr))
          \<and> \<not> descendantOf h k (Suc k) \<and> \<not> descendantOf h (Suc k) k)"
proof -
  from run have bt: "buildTree \<lparr>symbols = [], arrays = (\<lambda>a. [])\<rparr>
                       (MarkdownSymbol MinusInfinity None RootChildren) toc = Inr h"
    by (simp add: provideDocumentSymbols_def)
  from buildTree_heap_ok [OF bt initial_ok] have ok: "heap_ok toc h"
    and len: "length (symbols h) = length toc" by simp_all
  have later: "a < b \<and> b < length toc \<and> level (toc ! a) < level (toc ! b)"
    if "descendantOf h a b" for a b
    using descendantOf_later [OF ok that] len by simp
  have never: "\<not> descendantOf h a b" if "a < b \<and> level (toc ! b) \<le> level (toc ! a)" for a b
    using later [of a b] that by auto
  have sib: "(\<exists>arr. k \<in> set (arrays h arr) \<and> Suc k \<in> set (arrays h arr))
          \<and> \<not> descendantOf h k (Suc k) \<and> \<not> descendantOf h (Suc k) k"
    if k: "Suc k < length toc \<and> level (toc ! k) = level (toc ! Suc k)" for k
  proof -
    from buildTree_siblings [OF bt initial_ok, of k] k
    have "\<exists>arr. k \<in> set (arrays h arr) \<and> Suc k \<in> set (arrays h arr)" by simp
    moreover from later [of k "Suc k"] k have "\<not> descendantOf h k (Suc k)" by auto
    moreover from later [of "Suc k" k] have "\<not> descendantOf h (Suc k) k" by auto
    ultimately show ?thesis by blast
  qed
  from len later never sib show ?thesis by blast
qed

lemma climb_rooted: "rooted p \<Longrightarrow> \<exists>q. climb l p = Inr q \<and> rooted q"
  by (induction l p rule: climb.induct) auto

lemma buildTree_returns:
  "rooted p \<Longrightarrow> \<forall>e\<in>set entries. 0 \<le> level e \<Longrightarrow> \<exists>h'. buildTree h p entries = Inr h'"
proof (induction entries arbitrary: h p)
  case Nil
  then show ?case by simp
next
  case (Cons entry rest)
  from Cons.prems(2) obtain symbol where s: "toDocumentSymbol (length (symbols h)) entry = Inr symbol"
    by (auto simp: toDocumentSymbol_def getSymbolName_def)
  from climb_rooted [OF Cons.prems(1)] obtain q where q: "climb (level entry) p = Inr q" "rooted q"
    by blast
  from q(2) have "rooted (MarkdownSymbol (Level (level entry)) (Some q) (children symbol))" by simp
  from Cons.IH [OF this] Cons.prems(2) s q(1) show ?case
    by (simp add: Let_def)
qed

lemma headings_levels:
  assumes "headings f doc tokens seen toc = Inr r" and "\<forall>x\<in>set toc. 0 \<le> level x"
  shows "\<forall>x\<in>set r. 0 \<le> level x"
  using assms
proof (induction tokens arbitrary: seen toc)
  case Nil
  then show ?case by simp
next
  case (Cons heading rest)
  have lv: "0 \<le> level (newEntry doc heading n t sl)" for n t sl
    by (simp add: newEntry_def Let_def getHeaderLevel_def)
  show ?case
  proof (cases "map' heading")
    case None
    with Cons show ?thesis by simp
  next
    case (Some m)
    obtain n lineEnd where m: "m = (n, lineEnd)" by (cases m)
    from Cons.prems(1) Some m obtain t where la: "lineAt doc n = Inr t"
      by (auto split: sum.splits)
    show ?thesis
    proof (cases "seen (f t)")
      case None
      with Cons.prems(1) \<open>map' heading = Some m\<close> m la
      have "headings f doc rest (seen(f t \<mapsto> 0)) (toc @ [newEntry doc heading n t (f t)]) = Inr r"
        by (simp add: Let_def)
      then show ?thesis
        by (rule Cons.IH) (use Cons.prems(2) lv in auto)
    next
      case (Some c)
      with Cons.prems(1) \<open>map' heading = Some m\<close> m la
      have "headings f doc rest (seen(f t \<mapsto> c + 1))
              (toc @ [newEntry doc heading n t (f (f t @ ''-'' @ decimal (c + 1)))]) = Inr r"
        by (simp add: Let_def)
      then show ?thesis
        by (rule Cons.IH) (use Cons.prems(2) lv in auto)
    qed
  qed
qed

lemma provideDocumentSymbols_returns:
  assumes "buildToc f doc tokens = Inr toc"
  shows "\<exists>h. provideDocumentSymbols toc = Inr h"
proof -
  from assms obtain hs where
    hs: "headings f doc (filter (\<lambda>token. type' token = ''heading_open'') tokens) Map.empty [] = Inr hs"
    and sec: "sections doc hs = Inr toc"
    by (auto simp: buildToc_def split: sum.splits)
  from headings_levels [OF hs] have h0: "\<forall>x\<in>set hs. 0 \<le> level x" by simp
  from sections_nth [OF sec] have len: "length toc = length hs"
    and nth: "\<And>i. i < length hs \<Longrightarrow> level (toc ! i) = level (hs ! i)" by simp_all
  have "\<forall>e\<in>set toc. 0 \<le> level e"
  proof
    fix e assume "e \<in> set toc"
    then obtain i where i: "i < length toc" "e = toc ! i" by (auto simp: in_set_conv_nth)
    with len nth [of i] h0 show "0 \<le> level e" by simp
  qed
  then show ?thesis
    unfolding provideDocumentSymbols_def by (intro buildTree_returns) simp
qed

lemmas tree_defs = provideDocumentSymbols_def toDocumentSymbol_def getSymbolName_def
  siblingsDoc_def siblingsTokens_def

theorem headings_nest_under_shallower_only_witness:
  "map level siblingsToc = [1, 2, 2, 1]
   \<and> arrays siblingsHeap RootChildren = [0, 3]
   \<and> arrays siblingsHeap (ChildrenOf 0) = [1, 2]
   \<and> arrays siblingsHeap (ChildrenOf 1) = []
   \<and> \<not> descendantOf siblingsHeap 1 2
   \<and> \<not> descendantOf siblingsHeap 0 3"
proof -
  have toc: "map level siblingsToc = [1, 2, 2, 1]" and len: "length siblingsToc = 4"
    unfolding siblingsToc_def by (simp_all add: md_defs tree_defs)
  have lev: "level (siblingsToc ! 0) = 1" "level (siblingsToc ! 1) = 2"
    "level (siblingsToc ! 2) = 2" "level (siblingsToc ! 3) = 1"
    unfolding siblingsToc_def by (simp_all add: md_defs tree_defs)
  have run: "provideDocumentSymbols siblingsToc = Inr siblingsHeap"
    unfolding siblingsHeap_def siblingsToc_def by (simp add: md_defs tree_defs)
  have arrs: "arrays siblingsHeap RootChildren = [0, 3]"
    "arrays siblingsHeap (ChildrenOf 0) = [1, 2]" "arrays siblingsHeap (ChildrenOf 1) = []"
    unfolding siblingsHeap_def siblingsToc_def by (simp_all add: md_defs tree_defs)
  note th = headings_nest_under_shallower_only [OF run]
  have two: "Suc 1 = 2" by simp
  have k: "Suc 1 < length siblingsToc \<and> level (siblingsToc ! 1) = level (siblingsToc ! Suc 1)"
    unfolding two using lev(2,3) by (simp add: len)
  from th k have "\<not> descendantOf siblingsHeap 1 (Suc 1)" by blast
  then have a: "\<not> descendantOf siblingsHeap 1 2" unfolding two .
  have "(0::nat) < 3 \<and> level (siblingsToc ! 3) \<le> level (siblingsToc ! 0)"
    using lev(1,4) by simp
  with th have b: "\<not> descendantOf siblingsHeap 0 3" by blast
  from toc arrs a b show ?thesis by simp
qed

end
